theory Spec2Isabelle
  imports Main
begin

section \<open>Board model (models.py)\<close>

text \<open>
  A cell object is identified by its position \<open>(row, col)\<close>: \<open>build_cells\<close> and \<open>clone\<close>
  store the cell created for \<open>(r, c)\<close> at \<open>cells[r][c]\<close> with \<open>row = r\<close> and \<open>col = c\<close>,
  and no code assigns \<open>row\<close>, \<open>col\<close> or \<open>group_id\<close> afterwards. The matrix \<open>cells\<close> is
  an arena indexed by position, of which the code reads and writes the part
  \<open>rows \<times> cols\<close>; a group lists its member cells by position, in the order of
  \<open>group.cells\<close>. Python's \<open>None\<close> value is \<open>None\<close>. A candidate set is a list
  without duplicates, in ascending order (the sets of the source are finite sets of small
  integers; where the source traverses a set, the result does not depend on the order).
  The predicate \<open>wf_grid\<close> below states what \<open>build_cells\<close> establishes and what every
  function of the source relies on when it indexes \<open>cells\<close> and looks a group up.
  The aliasing between the objects, which is what \<open>clone\<close> is about, is modelled
  separately on an explicit store, in the section on \<open>clone\<close>.
\<close>

type_synonym pos = "nat \<times> nat"

record cell =
  cvalue :: "int option"
  candidates :: "int list"
  group_id :: int

record group =
  gid :: int
  gsize :: int
  gcells :: "pos list"

record grid =
  rows :: nat
  cols :: nat
  cells :: "pos \<Rightarrow> cell"
  groups :: "group list"

definition get_cell :: "grid \<Rightarrow> pos \<Rightarrow> cell" where
  "get_cell g p = cells g p"

text \<open>\<open>Grid.build_cells\<close>: the dictionary \<open>group_sizes\<close> keeps its keys in the order of
  their first insertion, so it is an association list.\<close>

fun bump :: "int \<Rightarrow> (int \<times> int) list \<Rightarrow> (int \<times> int) list" where
  "bump k [] = [(k, 1)]"
| "bump k ((k', n) # m) = (if k = k' then (k', n + 1) # m else (k', n) # bump k m)"

definition count_group_sizes :: "int list list \<Rightarrow> (int \<times> int) list" where
  "count_group_sizes group_map = foldl (\<lambda>m k. bump k m) [] (concat group_map)"

definition all_positions :: "nat \<Rightarrow> nat \<Rightarrow> pos list" where
  "all_positions nrows mcols = concat (map (\<lambda>r. map (\<lambda>c. (r, c)) [0..<mcols]) [0..<nrows])"

definition build_cells :: "nat \<Rightarrow> nat \<Rightarrow> int list list \<Rightarrow> grid" where
  "build_cells nrows mcols group_map =
     \<lparr> rows = nrows, cols = mcols,
       cells = (\<lambda>(r, c). \<lparr> cvalue = None, candidates = [], group_id = group_map ! r ! c \<rparr>),
       groups = map (\<lambda>(k, n). \<lparr> gid = k, gsize = n,
                                  gcells = filter (\<lambda>p. group_map ! fst p ! snd p = k)
                                             (all_positions nrows mcols) \<rparr>)
                    (count_group_sizes group_map) \<rparr>"

subsection \<open>\<open>Grid.get_neighbors\<close>\<close>

text \<open>An entry of the array \<open>neig\<close>: the \<open>0\<close> it is initialised with, or a cell.\<close>

datatype slot = Zero | Ref pos

definition offsets :: "(int \<times> int) list" where
  "offsets = concat (map (\<lambda>i. map (\<lambda>j. (i, j)) [-1, 0, 1]) [-1, 0, 1])"

definition out_of_bounds :: "grid \<Rightarrow> int \<Rightarrow> int \<Rightarrow> bool" where
  "out_of_bounds g x y \<longleftrightarrow> x < 0 \<or> x \<ge> int (rows g) \<or> y < 0 \<or> y \<ge> int (cols g)"

fun scan_step :: "grid \<Rightarrow> pos \<Rightarrow> slot list \<times> nat \<times> nat \<Rightarrow> int \<times> int \<Rightarrow> slot list \<times> nat \<times> nat" where
  "scan_step g (cellx, celly) (neig, index, oob) (i, j) =
     (if out_of_bounds g (int cellx + i) (int celly + j) then (neig, index, oob + 1)
      else if i \<noteq> 0 \<or> j \<noteq> 0
        then (neig[index := Ref (nat (int cellx + i), nat (int celly + j))], index + 1, oob)
        else (neig, index, oob))"

text \<open>The slice \<open>xs[:k]\<close>, where a negative \<open>k\<close> counts from the end.\<close>

definition py_prefix :: "'a list \<Rightarrow> int \<Rightarrow> 'a list" where
  "py_prefix xs k = take (nat (if k < 0 then int (length xs) + k else k)) xs"

definition get_neighbors :: "grid \<Rightarrow> pos \<Rightarrow> slot list" where
  "get_neighbors g p =
     (case foldl (scan_step g p) (replicate 8 Zero, 0, 0) offsets of
        (neig, index, oob) \<Rightarrow> py_prefix neig (8 - int oob))"

text \<open>The same list without the array: the positions around \<open>p\<close> that are inside the
  grid, in the order of the two loops. It is what the rest of the development uses.\<close>

definition neighbors :: "grid \<Rightarrow> pos \<Rightarrow> pos list" where
  "neighbors g p =
     map (\<lambda>(i, j). (nat (int (fst p) + i), nat (int (snd p) + j)))
       (filter (\<lambda>(i, j). \<not> out_of_bounds g (int (fst p) + i) (int (snd p) + j) \<and> (i \<noteq> 0 \<or> j \<noteq> 0))
          offsets)"

definition adjacent :: "pos \<Rightarrow> pos \<Rightarrow> bool" where
  "adjacent p q \<longleftrightarrow> p \<noteq> q \<and> \<bar>int (fst p) - int (fst q)\<bar> \<le> 1 \<and> \<bar>int (snd p) - int (snd q)\<bar> \<le> 1"

definition in_grid :: "grid \<Rightarrow> pos \<Rightarrow> bool" where
  "in_grid g p \<longleftrightarrow> fst p < rows g \<and> snd p < cols g"


subsection \<open>Properties of \<open>get_neighbors\<close>\<close>

lemma offsets_list: "offsets = [(-1,-1),(-1,0),(-1,1),(0,-1),(0,0),(0,1),(1,-1),(1,0),(1,1)]"
  by (simp add: offsets_def)

lemma get_neighbors_eq:
  assumes "in_grid g p"
  shows "get_neighbors g p = map Ref (neighbors g p)"
proof -
  obtain r c where p: "p = (r, c)" by (cases p)
  from assms p have b: "r < rows g" "c < cols g" by (simp_all add: in_grid_def)
  show ?thesis
    using b unfolding p get_neighbors_def neighbors_def offsets_list
    by (cases "r = 0"; cases "c = 0"; cases "int r + 1 \<ge> int (rows g)"; cases "int c + 1 \<ge> int (cols g)")
       (simp_all add: out_of_bounds_def py_prefix_def eval_nat_numeral)
qed

lemma offsets_range: "(i, j) \<in> set offsets \<Longrightarrow> -1 \<le> i \<and> i \<le> 1 \<and> -1 \<le> j \<and> j \<le> 1"
  by (auto simp: offsets_list)

lemma neighbors_subset:
  assumes "q \<in> set (neighbors g p)"
  shows "in_grid g q \<and> adjacent p q"
proof -
  from assms obtain i j where ij: "(i, j) \<in> set offsets"
    and ib: "\<not> out_of_bounds g (int (fst p) + i) (int (snd p) + j)"
    and nz: "i \<noteq> 0 \<or> j \<noteq> 0"
    and q: "q = (nat (int (fst p) + i), nat (int (snd p) + j))"
    unfolding neighbors_def by auto
  note r = offsets_range [OF ij]
  from ib have b: "0 \<le> int (fst p) + i" "int (fst p) + i < int (rows g)"
     "0 \<le> int (snd p) + j" "int (snd p) + j < int (cols g)"
    unfolding out_of_bounds_def by simp_all
  have 1: "in_grid g q" using b unfolding q in_grid_def by (simp add: nat_less_iff)
  have 2: "int (fst q) = int (fst p) + i" "int (snd q) = int (snd p) + j"
    using b unfolding q by simp_all
  have 3: "p \<noteq> q" using 2 nz by auto
  show ?thesis using 1 2 3 r unfolding adjacent_def by auto
qed

lemma neighbors_complete:
  assumes "in_grid g q" "adjacent p q"
  shows "q \<in> set (neighbors g p)"
proof -
  define i where "i = int (fst q) - int (fst p)"
  define j where "j = int (snd q) - int (snd p)"
  have "i \<in> {-1, 0, 1}" "j \<in> {-1, 0, 1}"
    using assms(2) unfolding adjacent_def i_def j_def by auto
  then have ij: "(i, j) \<in> set offsets"
    unfolding offsets_list by auto
  have nz: "i \<noteq> 0 \<or> j \<noteq> 0"
    using assms(2) unfolding adjacent_def i_def j_def by (auto simp: prod_eq_iff)
  have ib: "\<not> out_of_bounds g (int (fst p) + i) (int (snd p) + j)"
    using assms(1) unfolding out_of_bounds_def in_grid_def i_def j_def by simp
  have "q = (nat (int (fst p) + i), nat (int (snd p) + j))"
    unfolding i_def j_def by (simp add: prod_eq_iff)
  with ij nz ib show ?thesis
    unfolding neighbors_def by force
qed

lemma length_filter_imp:
  "(\<And>x. x \<in> set xs \<Longrightarrow> P x \<Longrightarrow> Q x) \<Longrightarrow> length (filter P xs) \<le> length (filter Q xs)"
  by (induction xs) auto

lemma length_neighbors_le: "length (neighbors g p) \<le> 8"
proof -
  have "length (neighbors g p) \<le> length (filter (\<lambda>(i, j). i \<noteq> 0 \<or> j \<noteq> 0) offsets)"
    unfolding neighbors_def length_map
    by (rule length_filter_imp) auto
  also have "\<dots> = 8" by (simp add: offsets_list)
  finally show ?thesis .
qed

lemma length_neighbors_ge:
  assumes "in_grid g p" "2 \<le> rows g" "2 \<le> cols g"
  shows "3 \<le> length (neighbors g p)"
proof -
  obtain r c where p: "p = (r, c)" by (cases p)
  from assms p have b: "r < rows g" "c < cols g" by (simp_all add: in_grid_def)
  show ?thesis
    using b assms(2,3) unfolding p neighbors_def offsets_list
    by (cases "r = 0"; cases "c = 0"; cases "int r + 1 \<ge> int (rows g)"; cases "int c + 1 \<ge> int (cols g)")
       (simp_all add: out_of_bounds_def)
qed

lemma distinct_neighbors: "distinct (neighbors g p)"
proof -
  let ?P = "\<lambda>(i, j). \<not> out_of_bounds g (int (fst p) + i) (int (snd p) + j) \<and> (i \<noteq> 0 \<or> j \<noteq> 0)"
  have "distinct offsets" by (simp add: offsets_def)
  then have d: "distinct (filter ?P offsets)"
    by (rule distinct_filter) 
  have "inj_on (\<lambda>(i, j). (nat (int (fst p) + i), nat (int (snd p) + j))) {(i, j). \<not> out_of_bounds g (int (fst p) + i) (int (snd p) + j)}"
    by (rule inj_onI) (auto simp: out_of_bounds_def)
  then have "inj_on (\<lambda>(i, j). (nat (int (fst p) + i), nat (int (snd p) + j))) (set (filter ?P offsets))"
    by (rule inj_on_subset) auto
  with d show ?thesis
    unfolding neighbors_def by (simp add: distinct_map)
qed

lemma set_neighbors: "set (neighbors g p) = {q. in_grid g q \<and> adjacent p q}"
  using neighbors_subset neighbors_complete by blast

text \<open>
  Claim C8, amended. For every cell \<open>p\<close> inside the grid, \<open>get_neighbors\<close> returns
  exactly the cells of the grid that are 8-directionally adjacent to \<open>p\<close>, each once:
  never \<open>p\<close> itself, never a position outside the grid, never a left-over \<open>0\<close> of
  the array. The list has at most 8 entries, and at least 3 when the grid has at least
  two rows and two columns.
\<close>

theorem get_neighbors_adjacent_cells:
  assumes "in_grid g p"
  shows "set (get_neighbors g p) = Ref ` {q. in_grid g q \<and> adjacent p q}
       \<and> distinct (get_neighbors g p)
       \<and> length (get_neighbors g p) \<le> 8
       \<and> (2 \<le> rows g \<and> 2 \<le> cols g \<longrightarrow> 3 \<le> length (get_neighbors g p))"
proof -
  have inj: "inj_on Ref (set (neighbors g p))"
    by (simp add: inj_on_def)
  show ?thesis
    unfolding get_neighbors_eq [OF assms]
    using length_neighbors_ge [OF assms] length_neighbors_le [of g p] distinct_neighbors [of g p] inj
    by (simp add: set_neighbors distinct_map)
qed

theorem get_neighbors_adjacent_cells_witness:
  "in_grid (build_cells 2 2 [[0, 0], [1, 1]]) (0, 0)
   \<and> 2 \<le> rows (build_cells 2 2 [[0, 0], [1, 1]]) \<and> 2 \<le> cols (build_cells 2 2 [[0, 0], [1, 1]])
   \<and> 3 \<le> length (get_neighbors (build_cells 2 2 [[0, 0], [1, 1]]) (0, 0))
   \<and> Ref (0, 0) \<notin> set (get_neighbors (build_cells 2 2 [[0, 0], [1, 1]]) (0, 0))"
proof -
  have h: "in_grid (build_cells 2 2 [[0, 0], [1, 1]]) (0, 0)"
    by (simp add: in_grid_def build_cells_def)
  show ?thesis
    using h get_neighbors_adjacent_cells [OF h]
    by (auto simp: build_cells_def adjacent_def)
qed

text \<open>
  Claim C8 as stated fails on a grid with a single row: the left cell of the grid built
  from the layout \<open>[[0, 0]]\<close> has one neighbour.
\<close>

theorem get_neighbors_single_row_counterexample:
  "in_grid (build_cells 1 2 [[0, 0]]) (0, 0)
   \<and> get_neighbors (build_cells 1 2 [[0, 0]]) (0, 0) = [Ref (0, 1)]
   \<and> \<not> 3 \<le> length (get_neighbors (build_cells 1 2 [[0, 0]]) (0, 0))"
  by (simp add: in_grid_def build_cells_def get_neighbors_def offsets_def out_of_bounds_def
      py_prefix_def eval_nat_numeral)

subsection \<open>Queries and updates of the board\<close>

text \<open>An assignment to a field of the cell at \<open>p\<close>.\<close>

definition upd_cell :: "grid \<Rightarrow> pos \<Rightarrow> (cell \<Rightarrow> cell) \<Rightarrow> grid" where
  "upd_cell g p f = g\<lparr>cells := (cells g)(p := f (cells g p))\<rparr>"

definition set_value :: "grid \<Rightarrow> pos \<Rightarrow> int option \<Rightarrow> grid" where
  "set_value g p v = upd_cell g p (\<lambda>c. c\<lparr>cvalue := v\<rparr>)"

text \<open>\<open>get_group\<close> returns the first group whose id is the cell's \<open>group_id\<close>, or
  \<open>None\<close>. \<open>get_group_peers\<close> copies the members of that group other than the cell into
  an array of \<open>size - 1\<close> entries; in a well-formed grid (\<open>size\<close> is the number of members
  and the cell is one of them, once) the array is exactly filled, and it is the list
  below. The source has no branch for a cell without a group (it fails on \<open>group.size\<close>);
  \<open>wf_grid\<close> excludes it, and the model has no peers and no candidates there.\<close>

definition get_group :: "grid \<Rightarrow> pos \<Rightarrow> group option" where
  "get_group g p = find (\<lambda>gr. gid gr = group_id (get_cell g p)) (groups g)"

definition get_group_peers :: "grid \<Rightarrow> pos \<Rightarrow> pos list" where
  "get_group_peers g p =
     (case get_group g p of None \<Rightarrow> [] | Some gr \<Rightarrow> filter (\<lambda>q. q \<noteq> p) (gcells gr))"

text \<open>\<open>s.discard(x)\<close>, where \<open>x\<close> may be \<open>None\<close> (which no candidate set contains).\<close>

definition discard_value :: "int option \<Rightarrow> int list \<Rightarrow> int list" where
  "discard_value x cs = (case x of None \<Rightarrow> cs | Some v \<Rightarrow> removeAll v cs)"

definition get_candidates_for_cell :: "grid \<Rightarrow> pos \<Rightarrow> int list" where
  "get_candidates_for_cell g p =
     (case get_group g p of
        None \<Rightarrow> []
      | Some gr \<Rightarrow>
          foldl (\<lambda>cs q. discard_value (cvalue (get_cell g q)) cs) [1..gsize gr]
            (get_group_peers g p @ neighbors g p))"

text \<open>\<open>find_best_empty_cell\<close>: the pair is \<open>(best_cell, min_candidates)\<close>, where
  \<open>None\<close> in the second component is the initial \<open>float('inf')\<close>.\<close>

definition best_step :: "grid \<Rightarrow> pos option \<times> nat option \<Rightarrow> pos \<Rightarrow> pos option \<times> nat option" where
  "best_step g st p =
     (if cvalue (get_cell g p) \<noteq> None then st
      else let num_candidates = length (get_candidates_for_cell g p) in
        if (case snd st of None \<Rightarrow> True | Some m \<Rightarrow> num_candidates < m)
        then (Some p, Some num_candidates) else st)"

definition find_best_empty_cell :: "grid \<Rightarrow> pos option" where
  "find_best_empty_cell g = fst (foldl (best_step g) (None, None) (all_positions (rows g) (cols g)))"

definition is_complete :: "grid \<Rightarrow> bool" where
  "is_complete g \<longleftrightarrow> list_all (\<lambda>p. cvalue (get_cell g p) \<noteq> None) (all_positions (rows g) (cols g))"

text \<open>\<open>is_valid\<close>: no group holds a value twice, and no filled cell has a neighbour with
  its value.\<close>

definition is_valid :: "grid \<Rightarrow> bool" where
  "is_valid g \<longleftrightarrow>
     list_all (\<lambda>gr. distinct (filter (\<lambda>v. v \<noteq> None) (map (\<lambda>q. cvalue (get_cell g q)) (gcells gr))))
       (groups g)
     \<and> list_all (\<lambda>p. cvalue (get_cell g p) = None
            \<or> cvalue (get_cell g p) \<notin> set (map (\<lambda>q. cvalue (get_cell g q)) (neighbors g p)))
         (all_positions (rows g) (cols g))"

text \<open>What \<open>build_cells\<close> establishes: the groups have distinct ids, each group's \<open>size\<close>
  is the number of its members, its members are distinct cells of the grid that carry
  its id, and every cell of the grid is a member of the group it names.\<close>

definition wf_grid :: "grid \<Rightarrow> bool" where
  "wf_grid g \<longleftrightarrow>
     distinct (map gid (groups g))
     \<and> list_all (\<lambda>gr. distinct (gcells gr) \<and> gsize gr = int (length (gcells gr))
           \<and> list_all (\<lambda>q. in_grid g q \<and> group_id (get_cell g q) = gid gr) (gcells gr)) (groups g)
     \<and> list_all (\<lambda>p. list_ex (\<lambda>gr. gid gr = group_id (get_cell g p) \<and> p \<in> set (gcells gr)) (groups g))
         (all_positions (rows g) (cols g))"

section \<open>Propagation solver (solver.py)\<close>

text \<open>The exceptions that leave the code modelled here: \<open>Contradiction\<close> of solver.py, and
  the \<open>ValueError\<close> and \<open>OverflowError\<close> that \<open>int(x)\<close> raises in \<open>_remove_clues\<close> on a float
  \<open>x\<close> that is not finite.\<close>

datatype error = Contradiction | ValueError | OverflowError

record solver =
  sgrid :: grid
  techniques_used :: "string set"

record solve_result =
  solved :: bool
  result_grid :: grid
  result_techniques :: "string set"
  difficulty :: int

text \<open>\<open>_init_candidates\<close>.\<close>

definition init_cell :: "grid \<Rightarrow> pos \<Rightarrow> grid" where
  "init_cell g p =
     (if cvalue (get_cell g p) = None then
        (case get_group g p of
           None \<Rightarrow> g
         | Some cell_group \<Rightarrow>
             upd_cell g p (\<lambda>c. c\<lparr>candidates :=
               foldl (\<lambda>cs q. if cvalue (get_cell g q) \<noteq> None
                              then discard_value (cvalue (get_cell g q)) cs else cs)
                 [1..gsize cell_group] (get_group_peers g p @ neighbors g p)\<rparr>))
      else g)"

definition init_candidates :: "grid \<Rightarrow> grid" where
  "init_candidates g = foldl init_cell g (all_positions (rows g) (cols g))"

text \<open>\<open>_place_value\<close>: the two loops over the group peers and over the neighbours, each
  of which raises at the first empty cell left without a candidate.\<close>

fun discard_from :: "int \<Rightarrow> grid \<Rightarrow> pos list \<Rightarrow> error + grid" where
  "discard_from v g [] = Inr g"
| "discard_from v g (q # qs) =
     (let g' = upd_cell g q (\<lambda>c. c\<lparr>candidates := discard_value (Some v) (candidates c)\<rparr>) in
      if cvalue (get_cell g' q) = None \<and> length (candidates (get_cell g' q)) = 0
      then Inl Contradiction
      else discard_from v g' qs)"

definition place_value :: "grid \<Rightarrow> pos \<Rightarrow> int \<Rightarrow> error + grid" where
  "place_value g p v =
     (let g1 = upd_cell g p (\<lambda>c. c\<lparr>cvalue := Some v, candidates := []\<rparr>) in
      case discard_from v g1 (get_group_peers g1 p) of
        Inl e \<Rightarrow> Inl e
      | Inr g2 \<Rightarrow> discard_from v g2 (neighbors g2 p))"

definition add_technique :: "string \<Rightarrow> solver \<Rightarrow> solver" where
  "add_technique name s = s\<lparr>techniques_used := insert name (techniques_used s)\<rparr>"

text \<open>\<open>_naked_single\<close>; the flag is \<open>is_placed\<close>.\<close>

fun naked_single_scan :: "solver \<Rightarrow> bool \<Rightarrow> pos list \<Rightarrow> error + solver \<times> bool" where
  "naked_single_scan s is_placed [] = Inr (s, is_placed)"
| "naked_single_scan s is_placed (p # ps) =
     (let c = get_cell (sgrid s) p in
      if cvalue c = None \<and> length (candidates c) = 1 then
        (case place_value (sgrid s) p (hd (candidates c)) of
           Inl e \<Rightarrow> Inl e
         | Inr g' \<Rightarrow> naked_single_scan (add_technique ''naked_single'' (s\<lparr>sgrid := g'\<rparr>)) True ps)
      else naked_single_scan s is_placed ps)"

definition naked_single :: "solver \<Rightarrow> error + solver \<times> bool" where
  "naked_single s = naked_single_scan s False (all_positions (rows (sgrid s)) (cols (sgrid s)))"

text \<open>\<open>_hidden_single\<close>. \<open>holders g gr v\<close> are the empty cells of the group that have \<open>v\<close>
  as a candidate, so \<open>vals[v]\<close> is their number; \<open>to_place\<close> is computed once per group,
  before the placements in it.\<close>

definition holders :: "grid \<Rightarrow> group \<Rightarrow> int \<Rightarrow> pos list" where
  "holders g gr v =
     filter (\<lambda>q. cvalue (get_cell g q) = None \<and> v \<in> set (candidates (get_cell g q))) (gcells gr)"

definition to_place :: "grid \<Rightarrow> group \<Rightarrow> int list" where
  "to_place g gr = filter (\<lambda>v. length (holders g gr v) = 1) [0..gsize gr]"

fun hidden_single_values :: "solver \<Rightarrow> bool \<Rightarrow> group \<Rightarrow> int list \<Rightarrow> error + solver \<times> bool" where
  "hidden_single_values s is_placed gr [] = Inr (s, is_placed)"
| "hidden_single_values s is_placed gr (v # vs) =
     (case holders (sgrid s) gr v of
        [] \<Rightarrow> hidden_single_values s is_placed gr vs
      | q # _ \<Rightarrow>
         (case place_value (sgrid s) q v of
            Inl e \<Rightarrow> Inl e
          | Inr g' \<Rightarrow>
              hidden_single_values (add_technique ''hidden_single'' (s\<lparr>sgrid := g'\<rparr>)) True gr vs))"

fun hidden_single_groups :: "solver \<Rightarrow> bool \<Rightarrow> group list \<Rightarrow> error + solver \<times> bool" where
  "hidden_single_groups s is_placed [] = Inr (s, is_placed)"
| "hidden_single_groups s is_placed (gr # grs) =
     (case hidden_single_values s is_placed gr (to_place (sgrid s) gr) of
        Inl e \<Rightarrow> Inl e
      | Inr (s', is_placed') \<Rightarrow> hidden_single_groups s' is_placed' grs)"

definition hidden_single :: "solver \<Rightarrow> error + solver \<times> bool" where
  "hidden_single s = hidden_single_groups s False (groups (sgrid s))"

text \<open>\<open>_neighbor_elimination\<close>. The dictionary \<open>common_cands\<close> of a group maps each
  candidate value of an empty member to the members that hold it; it is built before
  the eliminations in the group.\<close>

definition common_cands :: "grid \<Rightarrow> group \<Rightarrow> (int \<times> pos list) list" where
  "common_cands g gr =
     map (\<lambda>v. (v, holders g gr v))
       (rev (remdups (rev (concat (map (\<lambda>q. candidates (get_cell g q))
          (filter (\<lambda>q. cvalue (get_cell g q) = None) (gcells gr)))))))"

definition common_neigh :: "grid \<Rightarrow> pos list \<Rightarrow> pos list" where
  "common_neigh g cs =
     filter (\<lambda>q. \<forall>c \<in> set (tl cs). q \<in> set (neighbors g c)) (neighbors g (hd cs))"

definition eliminate :: "int \<Rightarrow> solver \<times> bool \<Rightarrow> pos \<Rightarrow> solver \<times> bool" where
  "eliminate v sp q =
     (let s = fst sp; c = get_cell (sgrid s) q in
      if cvalue c = None \<and> v \<in> set (candidates c) then
        (add_technique ''neighbor_elimination''
           (s\<lparr>sgrid := upd_cell (sgrid s) q
                 (\<lambda>c. c\<lparr>candidates := discard_value (Some v) (candidates c)\<rparr>)\<rparr>), True)
      else sp)"

definition neighbor_elimination_value :: "solver \<times> bool \<Rightarrow> int \<times> pos list \<Rightarrow> solver \<times> bool" where
  "neighbor_elimination_value sp vc =
     (if length (snd vc) > 1
      then foldl (eliminate (fst vc)) sp (common_neigh (sgrid (fst sp)) (snd vc))
      else sp)"

definition neighbor_elimination_group :: "solver \<times> bool \<Rightarrow> group \<Rightarrow> solver \<times> bool" where
  "neighbor_elimination_group sp gr =
     foldl neighbor_elimination_value sp (common_cands (sgrid (fst sp)) gr)"

definition neighbor_elimination :: "solver \<Rightarrow> solver \<times> bool" where
  "neighbor_elimination s = foldl neighbor_elimination_group (s, False) (groups (sgrid s))"

text \<open>\<open>_naked_subsets_generalized\<close>. \<open>combinations\<close> is \<open>itertools.combinations\<close>.\<close>

fun combinations :: "'a list \<Rightarrow> nat \<Rightarrow> 'a list list" where
  "combinations xs 0 = [[]]"
| "combinations [] (Suc k) = []"
| "combinations (x # xs) (Suc k) = map ((#) x) (combinations xs k) @ combinations xs (Suc k)"

definition union_candidates :: "grid \<Rightarrow> pos list \<Rightarrow> int list" where
  "union_candidates g cell_combo = remdups (concat (map (\<lambda>q. candidates (get_cell g q)) cell_combo))"

definition remove_candidates :: "string \<Rightarrow> int list \<Rightarrow> solver \<times> bool \<Rightarrow> pos \<Rightarrow> solver \<times> bool" where
  "remove_candidates name vs sp q =
     (let s = fst sp; n_before = length (candidates (get_cell (sgrid s) q));
          g' = upd_cell (sgrid s) q (\<lambda>c. c\<lparr>candidates := filter (\<lambda>v. v \<notin> set vs) (candidates c)\<rparr>) in
      if length (candidates (get_cell g' q)) < n_before
      then (add_technique name (s\<lparr>sgrid := g'\<rparr>), True)
      else (s\<lparr>sgrid := g'\<rparr>, snd sp))"

definition naked_subsets_combo :: "group \<Rightarrow> nat \<Rightarrow> solver \<times> bool \<Rightarrow> pos list \<Rightarrow> solver \<times> bool" where
  "naked_subsets_combo gr sz sp cell_combo =
     (let un = union_candidates (sgrid (fst sp)) cell_combo in
      if length un = sz then
        foldl (remove_candidates ''naked_subsets'' un) sp
          (filter (\<lambda>q. q \<notin> set cell_combo \<and> cvalue (get_cell (sgrid (fst sp)) q) = None) (gcells gr))
      else sp)"

definition naked_subsets_group :: "nat \<Rightarrow> solver \<times> bool \<Rightarrow> group \<Rightarrow> solver \<times> bool" where
  "naked_subsets_group max_size sp gr =
     (let empty_cells = filter (\<lambda>q. cvalue (get_cell (sgrid (fst sp)) q) = None) (gcells gr) in
      foldl (\<lambda>sp sz. foldl (naked_subsets_combo gr sz) sp (combinations empty_cells sz))
        sp [2 ..< min (max_size + 1) (length empty_cells + 1)])"

definition naked_subsets_generalized :: "solver \<Rightarrow> solver \<times> bool" where
  "naked_subsets_generalized s = foldl (naked_subsets_group 3) (s, False) (groups (sgrid s))"

text \<open>\<open>_hidden_pairs\<close>. \<open>cands_to_cells\<close> maps each value \<open>1..size\<close> to its holders, taken
  before the eliminations in the group; a key of \<open>comb_appear\<close> is a set of cells, here
  the list of holders (two values have the same set of holders exactly when they have
  the same list, both being sublists of \<open>group.cells\<close>), and \<open>comb_appear\<close> keeps its keys
  in the order of their first insertion.\<close>

definition cands_to_cells :: "grid \<Rightarrow> group \<Rightarrow> (int \<times> pos list) list" where
  "cands_to_cells g gr = map (\<lambda>v. (v, holders g gr v)) [1..gsize gr]"

fun bump_key :: "pos list \<Rightarrow> (pos list \<times> nat) list \<Rightarrow> (pos list \<times> nat) list" where
  "bump_key k [] = [(k, 1)]"
| "bump_key k ((k', n) # m) = (if set k = set k' then (k', n + 1) # m else (k', n) # bump_key k m)"

definition comb_appear :: "nat \<Rightarrow> (int \<times> pos list) list \<Rightarrow> (pos list \<times> nat) list" where
  "comb_appear max_size c2c =
     foldl (\<lambda>m (v, comb). if length comb \<le> max_size then bump_key comb m else m) [] c2c"

definition hidden_pairs_key ::
    "group \<Rightarrow> (int \<times> pos list) list \<Rightarrow> solver \<times> bool \<Rightarrow> pos list \<times> nat \<Rightarrow> solver \<times> bool" where
  "hidden_pairs_key gr c2c sp ki =
     (if snd ki < 2 then sp
      else if snd ki \<noteq> length (fst ki) then sp
      else
        let cands_to_remove =
              filter (\<lambda>v. v \<notin> set (map fst (filter (\<lambda>(cand, pair). set (fst ki) = set pair) c2c)))
                [1..gsize gr]
        in foldl (remove_candidates ''hidden_pairs'' cands_to_remove) sp (fst ki))"

definition hidden_pairs_group :: "nat \<Rightarrow> solver \<times> bool \<Rightarrow> group \<Rightarrow> solver \<times> bool" where
  "hidden_pairs_group max_size sp gr =
     (let c2c = cands_to_cells (sgrid (fst sp)) gr in
      foldl (hidden_pairs_key gr c2c) sp (comb_appear max_size c2c))"

definition hidden_pairs :: "solver \<Rightarrow> solver \<times> bool" where
  "hidden_pairs s = foldl (hidden_pairs_group 3) (s, False) (groups (sgrid s))"

subsection \<open>A measure that every deduction decreases\<close>

text \<open>The weight of a grid counts, for every empty cell, one plus the number of its
  candidates. Filling a cell or removing a candidate from an empty cell decreases it.\<close>

definition cell_weight :: "cell \<Rightarrow> nat" where
  "cell_weight c = (case cvalue c of None \<Rightarrow> Suc (length (candidates c)) | Some _ \<Rightarrow> 0)"

definition touched :: "grid \<Rightarrow> pos list" where
  "touched g = all_positions (rows g) (cols g) @ concat (map gcells (groups g))"

definition weight :: "grid \<Rightarrow> nat" where
  "weight g = sum_list (map (\<lambda>p. cell_weight (get_cell g p)) (touched g))"

definition shrinks :: "grid \<Rightarrow> grid \<Rightarrow> bool" where
  "shrinks g g' \<longleftrightarrow>
     rows g' = rows g \<and> cols g' = cols g \<and> groups g' = groups g
     \<and> (\<forall>p. cell_weight (get_cell g' p) \<le> cell_weight (get_cell g p))"

definition progress_ok :: "solver \<times> bool \<Rightarrow> solver \<times> bool \<Rightarrow> bool" where
  "progress_ok sp sp' \<longleftrightarrow>
     shrinks (sgrid (fst sp)) (sgrid (fst sp'))
     \<and> (snd sp' \<longrightarrow> snd sp \<or> weight (sgrid (fst sp')) < weight (sgrid (fst sp)))"

lemma shrinks_refl: "shrinks g g"
  by (simp add: shrinks_def)

lemma shrinks_trans: "shrinks g g' \<Longrightarrow> shrinks g' g'' \<Longrightarrow> shrinks g g''"
  unfolding shrinks_def by (metis order_trans)

lemma touched_shrinks: "shrinks g g' \<Longrightarrow> touched g' = touched g"
  by (simp add: shrinks_def touched_def)

lemma sum_list_map_le:
  fixes f h :: "'a \<Rightarrow> nat"
  shows "(\<And>x. x \<in> set xs \<Longrightarrow> f x \<le> h x) \<Longrightarrow> sum_list (map f xs) \<le> sum_list (map h xs)"
  by (induction xs) (auto intro: add_mono)

lemma sum_list_map_less:
  fixes f h :: "'a \<Rightarrow> nat"
  assumes "\<And>x. x \<in> set xs \<Longrightarrow> f x \<le> h x" "y \<in> set xs" "f y < h y"
  shows "sum_list (map f xs) < sum_list (map h xs)"
  using assms
proof (induction xs)
  case Nil
  then show ?case by simp
next
  case (Cons x xs)
  have le: "sum_list (map f xs) \<le> sum_list (map h xs)"
    using Cons.prems(1) by (intro sum_list_map_le) simp
  show ?case
  proof (cases "y = x")
    case True
    with Cons.prems(3) le show ?thesis by simp
  next
    case False
    with Cons.prems have "y \<in> set xs" by simp
    from Cons.IH [OF _ this Cons.prems(3)] Cons.prems(1)
    have "sum_list (map f xs) < sum_list (map h xs)" by simp
    moreover have "f x \<le> h x" using Cons.prems(1) by simp
    ultimately show ?thesis by simp
  qed
qed

lemma shrinks_weight:
  assumes "shrinks g g'"
  shows "weight g' \<le> weight g"
proof -
  have "cell_weight (get_cell g' p) \<le> cell_weight (get_cell g p)" for p
    using assms unfolding shrinks_def by blast
  then show ?thesis
    unfolding weight_def touched_shrinks [OF assms] by (intro sum_list_map_le)
qed

lemma shrinks_weight_less:
  assumes "shrinks g g'" "p \<in> set (touched g)"
    and "cell_weight (get_cell g' p) < cell_weight (get_cell g p)"
  shows "weight g' < weight g"
proof -
  have "cell_weight (get_cell g' q) \<le> cell_weight (get_cell g q)" for q
    using assms(1) unfolding shrinks_def by blast
  then show ?thesis
    unfolding weight_def touched_shrinks [OF assms(1)]
    using assms(2,3)
    by (intro sum_list_map_less [where y = p]) simp_all
qed

lemma get_cell_upd:
  "get_cell (upd_cell g p f) q = (if q = p then f (get_cell g p) else get_cell g q)"
  by (simp add: get_cell_def upd_cell_def)

lemma upd_cell_fields [simp]:
  "rows (upd_cell g p f) = rows g" "cols (upd_cell g p f) = cols g"
  "groups (upd_cell g p f) = groups g"
  by (simp_all add: upd_cell_def)

lemma neighbors_upd [simp]: "neighbors (upd_cell g p f) q = neighbors g q"
  by (simp add: neighbors_def out_of_bounds_def)

lemma upd_shrinks:
  "cell_weight (f (get_cell g p)) \<le> cell_weight (get_cell g p) \<Longrightarrow> shrinks g (upd_cell g p f)"
  by (simp add: shrinks_def get_cell_upd)

lemma discard_weight:
  "cell_weight (c\<lparr>candidates := discard_value x (candidates c)\<rparr>) \<le> cell_weight c"
  by (cases x) (auto simp: cell_weight_def discard_value_def split: option.splits)

lemma filter_weight:
  "cell_weight (c\<lparr>candidates := filter P (candidates c)\<rparr>) \<le> cell_weight c"
  by (auto simp: cell_weight_def split: option.splits)

lemma progress_ok_refl: "progress_ok sp sp"
  by (simp add: progress_ok_def shrinks_refl)

lemma progress_ok_trans:
  assumes "progress_ok a b" "progress_ok b c"
  shows "progress_ok a c"
proof -
  from assms have s: "shrinks (sgrid (fst a)) (sgrid (fst c))"
    unfolding progress_ok_def by (blast intro: shrinks_trans)
  from assms have w: "weight (sgrid (fst b)) \<le> weight (sgrid (fst a))"
      "weight (sgrid (fst c)) \<le> weight (sgrid (fst b))"
    unfolding progress_ok_def by (simp_all add: shrinks_weight)
  from assms w show ?thesis
    unfolding progress_ok_def using s by auto
qed

lemma foldl_progress:
  assumes "\<And>sp' x. x \<in> set xs \<Longrightarrow> progress_ok sp0 sp' \<Longrightarrow> progress_ok sp' (f sp' x)"
    and "progress_ok sp0 sp"
  shows "progress_ok sp0 (foldl f sp xs)"
  using assms
proof (induction xs arbitrary: sp)
  case Nil
  then show ?case by simp
next
  case (Cons x xs)
  have "progress_ok sp (f sp x)" using Cons.prems by simp
  with Cons.prems(2) have "progress_ok sp0 (f sp x)" by (rule progress_ok_trans)
  with Cons.IH Cons.prems(1) show ?case by simp
qed

lemma sgrid_add_technique [simp]: "sgrid (add_technique name s) = sgrid s"
  by (simp add: add_technique_def)

lemma in_touched_positions: "p \<in> set (all_positions (rows g) (cols g)) \<Longrightarrow> p \<in> set (touched g)"
  by (simp add: touched_def)

lemma in_touched_group: "gr \<in> set (groups g) \<Longrightarrow> q \<in> set (gcells gr) \<Longrightarrow> q \<in> set (touched g)"
  by (auto simp: touched_def)

lemma set_all_positions: "set (all_positions n m) = {p. fst p < n \<and> snd p < m}"
  by (auto simp: all_positions_def)

lemma in_touched_neighbors: "q \<in> set (neighbors g p) \<Longrightarrow> q \<in> set (touched g)"
  using neighbors_subset [of q g p]
  by (simp add: touched_def set_all_positions in_grid_def)

lemma discard_from_shrinks: "discard_from v g qs = Inr g' \<Longrightarrow> shrinks g g'"
proof (induction qs arbitrary: g)
  case Nil
  then show ?case by (simp add: shrinks_refl)
next
  case (Cons q qs)
  let ?g1 = "upd_cell g q (\<lambda>c. c\<lparr>candidates := discard_value (Some v) (candidates c)\<rparr>)"
  have 1: "shrinks g ?g1"
    by (rule upd_shrinks) (rule discard_weight)
  from Cons.prems have "discard_from v ?g1 qs = Inr g'"
    by (simp add: Let_def split: if_splits)
  then have "shrinks ?g1 g'" by (rule Cons.IH)
  with 1 show ?case by (rule shrinks_trans)
qed

lemma place_value_shrinks:
  assumes "place_value g p v = Inr g'"
  shows "shrinks g g'"
proof -
  let ?g1 = "upd_cell g p (\<lambda>c. c\<lparr>cvalue := Some v, candidates := []\<rparr>)"
  have 1: "shrinks g ?g1"
    by (rule upd_shrinks) (simp add: cell_weight_def)
  from assms obtain g2 where 2: "discard_from v ?g1 (get_group_peers ?g1 p) = Inr g2"
    and 3: "discard_from v g2 (neighbors g2 p) = Inr g'"
    unfolding place_value_def by (auto simp: Let_def split: sum.splits)
  from 1 discard_from_shrinks [OF 2] discard_from_shrinks [OF 3] show ?thesis
    by (blast intro: shrinks_trans)
qed

lemma place_value_weight:
  assumes "place_value g p v = Inr g'" "cvalue (get_cell g p) = None" "p \<in> set (touched g)"
  shows "weight g' < weight g"
proof -
  let ?g1 = "upd_cell g p (\<lambda>c. c\<lparr>cvalue := Some v, candidates := []\<rparr>)"
  have 1: "shrinks g ?g1"
    by (rule upd_shrinks) (simp add: cell_weight_def)
  have "cell_weight (get_cell ?g1 p) < cell_weight (get_cell g p)"
    using assms(2) by (simp add: get_cell_upd cell_weight_def)
  with 1 assms(3) have lt: "weight ?g1 < weight g" by (rule shrinks_weight_less)
  from assms(1) obtain g2 where 2: "discard_from v ?g1 (get_group_peers ?g1 p) = Inr g2"
    and 3: "discard_from v g2 (neighbors g2 p) = Inr g'"
    unfolding place_value_def by (auto simp: Let_def split: sum.splits)
  from discard_from_shrinks [OF 2] discard_from_shrinks [OF 3] have "shrinks ?g1 g'"
    by (rule shrinks_trans)
  then have "weight g' \<le> weight ?g1" by (rule shrinks_weight)
  with lt show ?thesis by simp
qed

lemma place_progress:
  assumes "place_value (sgrid s) p v = Inr g'" "cvalue (get_cell (sgrid s) p) = None"
    and "p \<in> set (touched (sgrid s))"
  shows "progress_ok (s, b) (add_technique name (s\<lparr>sgrid := g'\<rparr>), True)"
  using place_value_shrinks [OF assms(1)] place_value_weight [OF assms]
  by (simp add: progress_ok_def)

lemma naked_single_scan_progress:
  assumes "naked_single_scan s b ps = Inr (s', b')" "set ps \<subseteq> set (touched (sgrid s))"
  shows "progress_ok (s, b) (s', b')"
  using assms
proof (induction ps arbitrary: s b)
  case Nil
  then show ?case by (simp add: progress_ok_refl)
next
  case (Cons p ps)
  let ?c = "get_cell (sgrid s) p"
  show ?case
  proof (cases "cvalue ?c = None \<and> length (candidates ?c) = 1")
    case True
    with Cons.prems(1) obtain g' where pv: "place_value (sgrid s) p (hd (candidates ?c)) = Inr g'"
      and rest: "naked_single_scan (add_technique ''naked_single'' (s\<lparr>sgrid := g'\<rparr>)) True ps = Inr (s', b')"
      by (auto simp: Let_def split: sum.splits)
    from True Cons.prems(2)
    have 1: "progress_ok (s, b) (add_technique ''naked_single'' (s\<lparr>sgrid := g'\<rparr>), True)"
      by (intro place_progress [OF pv]) simp_all
    then have "touched g' = touched (sgrid s)"
      by (simp add: progress_ok_def touched_shrinks)
    with Cons.prems(2) have "set ps \<subseteq> set (touched (sgrid (add_technique ''naked_single'' (s\<lparr>sgrid := g'\<rparr>))))"
      by simp
    from Cons.IH [OF rest this] 1 show ?thesis
      by (blast intro: progress_ok_trans)
  next
    case False
    with Cons.prems(1) have "naked_single_scan s b ps = Inr (s', b')"
      by (auto simp: Let_def)
    with Cons.IH Cons.prems(2) show ?thesis by simp
  qed
qed

lemma naked_single_progress:
  "naked_single s = Inr (s', b') \<Longrightarrow> progress_ok (s, False) (s', b')"
  unfolding naked_single_def
  by (erule naked_single_scan_progress) (auto simp: touched_def)

lemma holders_subset: "q \<in> set (holders g gr v) \<Longrightarrow> q \<in> set (gcells gr) \<and> cvalue (get_cell g q) = None"
  by (simp add: holders_def)

lemma hidden_single_values_progress:
  assumes "hidden_single_values s b gr vs = Inr (s', b')" "gr \<in> set (groups (sgrid s))"
  shows "progress_ok (s, b) (s', b')"
  using assms
proof (induction vs arbitrary: s b)
  case Nil
  then show ?case by (simp add: progress_ok_refl)
next
  case (Cons v vs)
  show ?case
  proof (cases "holders (sgrid s) gr v")
    case Nil
    with Cons.prems(1) have "hidden_single_values s b gr vs = Inr (s', b')" by simp
    with Cons.IH Cons.prems(2) show ?thesis by simp
  next
    case (Cons q qs)
    with Cons.prems(1) obtain g' where pv: "place_value (sgrid s) q v = Inr g'"
      and rest: "hidden_single_values (add_technique ''hidden_single'' (s\<lparr>sgrid := g'\<rparr>)) True gr vs = Inr (s', b')"
      by (auto split: sum.splits)
    from Cons have "q \<in> set (holders (sgrid s) gr v)" by simp
    from holders_subset [OF this] \<open>gr \<in> set (groups (sgrid s))\<close>
    have 1: "progress_ok (s, b) (add_technique ''hidden_single'' (s\<lparr>sgrid := g'\<rparr>), True)"
      by (intro place_progress [OF pv]) (auto intro: in_touched_group)
    then have "groups g' = groups (sgrid s)"
      by (simp add: progress_ok_def shrinks_def)
    with \<open>gr \<in> set (groups (sgrid s))\<close>
    have "gr \<in> set (groups (sgrid (add_technique ''hidden_single'' (s\<lparr>sgrid := g'\<rparr>))))"
      by simp
    from \<open>\<And>s b. \<lbrakk>hidden_single_values s b gr vs = Inr (s', b'); gr \<in> set (groups (sgrid s))\<rbrakk> \<Longrightarrow> progress_ok (s, b) (s', b')\<close> [OF rest this] 1
    show ?thesis by (blast intro: progress_ok_trans)
  qed
qed

lemma hidden_single_groups_progress:
  assumes "hidden_single_groups s b grs = Inr (s', b')" "set grs \<subseteq> set (groups (sgrid s))"
  shows "progress_ok (s, b) (s', b')"
  using assms
proof (induction grs arbitrary: s b)
  case Nil
  then show ?case by (simp add: progress_ok_refl)
next
  case (Cons gr grs)
  from Cons.prems(1) obtain s1 b1 where
    1: "hidden_single_values s b gr (to_place (sgrid s) gr) = Inr (s1, b1)"
    and 2: "hidden_single_groups s1 b1 grs = Inr (s', b')"
    by (auto split: sum.splits)
  from Cons.prems(2) have p1: "progress_ok (s, b) (s1, b1)"
    by (intro hidden_single_values_progress [OF 1]) simp
  then have "groups (sgrid s1) = groups (sgrid s)"
    by (simp add: progress_ok_def shrinks_def)
  with Cons.prems(2) have "set grs \<subseteq> set (groups (sgrid s1))" by simp
  from Cons.IH [OF 2 this] p1 show ?case by (blast intro: progress_ok_trans)
qed

lemma hidden_single_progress:
  "hidden_single s = Inr (s', b') \<Longrightarrow> progress_ok (s, False) (s', b')"
  unfolding hidden_single_def
  by (erule hidden_single_groups_progress) simp

text \<open>The eliminations of levels 2 and 3 remove candidates and fill no cell.\<close>

definition prune_ok :: "solver \<times> bool \<Rightarrow> solver \<times> bool \<Rightarrow> bool" where
  "prune_ok sp sp' \<longleftrightarrow>
     progress_ok sp sp'
     \<and> (\<forall>p. cvalue (get_cell (sgrid (fst sp')) p) = cvalue (get_cell (sgrid (fst sp)) p))"

lemma prune_ok_refl: "prune_ok sp sp"
  by (simp add: prune_ok_def progress_ok_refl)

lemma prune_ok_trans: "prune_ok a b \<Longrightarrow> prune_ok b c \<Longrightarrow> prune_ok a c"
  unfolding prune_ok_def by (auto intro: progress_ok_trans)

lemma prune_ok_touched: "prune_ok sp sp' \<Longrightarrow> touched (sgrid (fst sp')) = touched (sgrid (fst sp))"
  by (simp add: prune_ok_def progress_ok_def touched_shrinks)

lemma prune_ok_fields:
  assumes "prune_ok sp sp'"
  shows "rows (sgrid (fst sp')) = rows (sgrid (fst sp))" "cols (sgrid (fst sp')) = cols (sgrid (fst sp))"
    "groups (sgrid (fst sp')) = groups (sgrid (fst sp))"
    "cvalue (get_cell (sgrid (fst sp')) p) = cvalue (get_cell (sgrid (fst sp)) p)"
  using assms unfolding prune_ok_def progress_ok_def shrinks_def by blast+

lemma foldl_prune:
  assumes "\<And>sp' x. x \<in> set xs \<Longrightarrow> prune_ok sp0 sp' \<Longrightarrow> prune_ok sp' (f sp' x)"
    and "prune_ok sp0 sp"
  shows "prune_ok sp0 (foldl f sp xs)"
  using assms
proof (induction xs arbitrary: sp)
  case Nil
  then show ?case by simp
next
  case (Cons x xs)
  have "prune_ok sp (f sp x)" using Cons.prems by simp
  with Cons.prems(2) have "prune_ok sp0 (f sp x)" by (rule prune_ok_trans)
  with Cons.IH Cons.prems(1) show ?case by simp
qed

lemma upd_candidates_prune:
  assumes "q \<in> set (touched (sgrid s))"
    and "b' \<longrightarrow> b \<or> (cvalue (get_cell (sgrid s) q) = None \<and> length cs < length (candidates (get_cell (sgrid s) q)))"
    and "length cs \<le> length (candidates (get_cell (sgrid s) q))"
    and "sgrid s' = upd_cell (sgrid s) q (\<lambda>c. c\<lparr>candidates := cs\<rparr>)"
  shows "prune_ok (s, b) (s', b')"
proof -
  let ?g = "sgrid s"
  let ?g' = "upd_cell ?g q (\<lambda>c. c\<lparr>candidates := cs\<rparr>)"
  have sh: "shrinks ?g ?g'"
    using assms(3) by (intro upd_shrinks) (simp add: cell_weight_def split: option.splits)
  have "weight ?g' < weight ?g"
    if "cvalue (get_cell ?g q) = None" "length cs < length (candidates (get_cell ?g q))"
    using sh assms(1)
    by (rule shrinks_weight_less) (use that in \<open>simp add: get_cell_upd cell_weight_def\<close>)
  with assms(2) have "b' \<longrightarrow> b \<or> weight ?g' < weight ?g" by blast
  with sh show ?thesis
    unfolding prune_ok_def progress_ok_def by (simp add: assms(4) get_cell_upd)
qed

lemma eliminate_prune:
  assumes "q \<in> set (touched (sgrid (fst sp)))"
  shows "prune_ok sp (eliminate v sp q)"
proof (cases "cvalue (get_cell (sgrid (fst sp)) q) = None \<and> v \<in> set (candidates (get_cell (sgrid (fst sp)) q))")
  case True
  then have e: "eliminate v sp q =
      (add_technique ''neighbor_elimination''
         ((fst sp)\<lparr>sgrid := upd_cell (sgrid (fst sp)) q
            (\<lambda>c. c\<lparr>candidates := discard_value (Some v) (candidates c)\<rparr>)\<rparr>), True)"
    by (simp add: eliminate_def Let_def)
  have "prune_ok (fst sp, snd sp) (eliminate v sp q)"
    unfolding e
    by (rule upd_candidates_prune [where q = q and cs = "discard_value (Some v) (candidates (get_cell (sgrid (fst sp)) q))"])
       (use True assms in \<open>simp_all add: discard_value_def length_removeAll_less upd_cell_def get_cell_def\<close>)
  then show ?thesis by simp
next
  case False
  then have "eliminate v sp q = sp" by (auto simp: eliminate_def Let_def)
  then show ?thesis by (simp add: prune_ok_refl)
qed

lemma remove_candidates_prune:
  assumes "q \<in> set (touched (sgrid (fst sp)))" "cvalue (get_cell (sgrid (fst sp)) q) = None"
  shows "prune_ok sp (remove_candidates name vs sp q)"
proof -
  let ?g = "sgrid (fst sp)"
  let ?cs = "filter (\<lambda>v. v \<notin> set vs) (candidates (get_cell ?g q))"
  let ?g' = "upd_cell ?g q (\<lambda>c. c\<lparr>candidates := filter (\<lambda>v. v \<notin> set vs) (candidates c)\<rparr>)"
  have g': "?g' = upd_cell ?g q (\<lambda>c. c\<lparr>candidates := ?cs\<rparr>)"
    by (simp add: upd_cell_def get_cell_def)
  have len: "length (candidates (get_cell ?g' q)) = length ?cs"
    by (simp add: get_cell_upd)
  show ?thesis
  proof (cases "length ?cs < length (candidates (get_cell ?g q))")
    case True
    then have e: "remove_candidates name vs sp q = (add_technique name ((fst sp)\<lparr>sgrid := ?g'\<rparr>), True)"
      unfolding remove_candidates_def Let_def len by simp
    have "prune_ok (fst sp, snd sp) (add_technique name ((fst sp)\<lparr>sgrid := ?g'\<rparr>), True)"
      by (rule upd_candidates_prune [where q = q and cs = ?cs])
         (use True assms g' in simp_all)
    then show ?thesis by (simp add: e)
  next
    case False
    then have e: "remove_candidates name vs sp q = ((fst sp)\<lparr>sgrid := ?g'\<rparr>, snd sp)"
      unfolding remove_candidates_def Let_def len by simp
    have "prune_ok (fst sp, snd sp) ((fst sp)\<lparr>sgrid := ?g'\<rparr>, snd sp)"
      by (rule upd_candidates_prune [where q = q and cs = ?cs])
         (use assms g' in simp_all)
    then show ?thesis by (simp add: e)
  qed
qed

lemma neighbor_elimination_value_prune:
  "prune_ok sp (neighbor_elimination_value sp vc)"
proof (cases "length (snd vc) > 1")
  case True
  have "prune_ok sp (foldl (eliminate (fst vc)) sp (common_neigh (sgrid (fst sp)) (snd vc)))"
  proof (rule foldl_prune [OF _ prune_ok_refl])
    fix sp' q
    assume "q \<in> set (common_neigh (sgrid (fst sp)) (snd vc))" and p: "prune_ok sp sp'"
    then have "q \<in> set (touched (sgrid (fst sp)))"
      by (auto simp: common_neigh_def intro: in_touched_neighbors)
    then show "prune_ok sp' (eliminate (fst vc) sp' q)"
      by (intro eliminate_prune) (simp add: prune_ok_touched [OF p])
  qed
  with True show ?thesis by (simp add: neighbor_elimination_value_def)
next
  case False
  then show ?thesis by (simp add: neighbor_elimination_value_def prune_ok_refl)
qed

lemma neighbor_elimination_group_prune: "prune_ok sp (neighbor_elimination_group sp gr)"
  unfolding neighbor_elimination_group_def
  by (rule foldl_prune [OF _ prune_ok_refl]) (rule neighbor_elimination_value_prune)

lemma neighbor_elimination_prune: "prune_ok (s, False) (fst (neighbor_elimination s), snd (neighbor_elimination s))"
  unfolding neighbor_elimination_def prod.collapse
  by (rule foldl_prune [OF _ prune_ok_refl]) (rule neighbor_elimination_group_prune)

lemma naked_subsets_combo_prune:
  assumes "gr \<in> set (groups (sgrid (fst sp)))"
  shows "prune_ok sp (naked_subsets_combo gr sz sp cell_combo)"
proof -
  let ?un = "union_candidates (sgrid (fst sp)) cell_combo"
  let ?qs = "filter (\<lambda>q. q \<notin> set cell_combo \<and> cvalue (get_cell (sgrid (fst sp)) q) = None) (gcells gr)"
  have "prune_ok sp (foldl (remove_candidates ''naked_subsets'' ?un) sp ?qs)"
  proof (rule foldl_prune [OF _ prune_ok_refl])
    fix sp' q
    assume q: "q \<in> set ?qs" and p: "prune_ok sp sp'"
    from q assms have "q \<in> set (touched (sgrid (fst sp)))" "cvalue (get_cell (sgrid (fst sp)) q) = None"
      by (auto intro: in_touched_group)
    then show "prune_ok sp' (remove_candidates ''naked_subsets'' ?un sp' q)"
      by (intro remove_candidates_prune) (simp_all add: prune_ok_touched [OF p] prune_ok_fields [OF p])
  qed
  then show ?thesis
    by (simp add: naked_subsets_combo_def Let_def prune_ok_refl)
qed

lemma naked_subsets_group_prune:
  assumes "gr \<in> set (groups (sgrid (fst sp)))"
  shows "prune_ok sp (naked_subsets_group max_size sp gr)"
  unfolding naked_subsets_group_def Let_def
proof (rule foldl_prune [OF _ prune_ok_refl])
  fix sp' sz
  assume p: "prune_ok sp sp'"
  show "prune_ok sp' (foldl (naked_subsets_combo gr sz) sp'
      (combinations (filter (\<lambda>q. cvalue (get_cell (sgrid (fst sp)) q) = None) (gcells gr)) sz))"
  proof (rule foldl_prune [OF _ prune_ok_refl])
    fix sp'' cell_combo
    assume "prune_ok sp' sp''"
    with p have "prune_ok sp sp''" by (rule prune_ok_trans)
    with assms show "prune_ok sp'' (naked_subsets_combo gr sz sp'' cell_combo)"
      by (intro naked_subsets_combo_prune) (simp add: prune_ok_fields)
  qed
qed

lemma foldl_groups_prune:
  assumes "\<And>sp gr. gr \<in> set (groups (sgrid (fst sp))) \<Longrightarrow> prune_ok sp (f sp gr)"
  shows "prune_ok (s, False) (foldl f (s, False) (groups (sgrid s)))"
proof (rule foldl_prune [OF _ prune_ok_refl])
  fix sp' gr
  assume "gr \<in> set (groups (sgrid s))" "prune_ok (s, False) sp'"
  then show "prune_ok sp' (f sp' gr)"
    by (intro assms) (simp add: prune_ok_fields)
qed

lemma naked_subsets_generalized_prune: "prune_ok (s, False) (naked_subsets_generalized s)"
  unfolding naked_subsets_generalized_def
  by (rule foldl_groups_prune) (rule naked_subsets_group_prune)

lemma comb_appear_keys:
  "k \<in> fst ` set (foldl (\<lambda>m (v, comb). if length comb \<le> n then bump_key comb m else m) m0 c2c)
   \<Longrightarrow> k \<in> fst ` set m0 \<or> k \<in> snd ` set c2c"
proof (induction c2c arbitrary: m0)
  case Nil
  then show ?case by simp
next
  case (Cons x c2c)
  have b: "k \<in> fst ` set (bump_key c m) \<Longrightarrow> k \<in> fst ` set m \<or> k = c" for c m
    by (induction c m rule: bump_key.induct) (auto split: if_splits)
  obtain v comb where x: "x = (v, comb)" by (cases x)
  from Cons.IH [OF Cons.prems [unfolded x foldl_Cons]] b show ?case
    unfolding x by (auto split: if_splits)
qed

lemma hidden_pairs_key_prune:
  assumes "gr \<in> set (groups (sgrid (fst sp)))"
    and "\<And>q. q \<in> set (fst ki) \<Longrightarrow> q \<in> set (gcells gr) \<and> cvalue (get_cell (sgrid (fst sp)) q) = None"
  shows "prune_ok sp (hidden_pairs_key gr c2c sp ki)"
proof -
  have "prune_ok sp (foldl (remove_candidates ''hidden_pairs'' vs) sp (fst ki))" for vs
  proof (rule foldl_prune [OF _ prune_ok_refl])
    fix sp' q
    assume q: "q \<in> set (fst ki)" and p: "prune_ok sp sp'"
    from assms(2) [OF q] assms(1)
    have "q \<in> set (touched (sgrid (fst sp)))" "cvalue (get_cell (sgrid (fst sp)) q) = None"
      by (auto intro: in_touched_group)
    then show "prune_ok sp' (remove_candidates ''hidden_pairs'' vs sp' q)"
      by (intro remove_candidates_prune) (simp_all add: prune_ok_touched [OF p] prune_ok_fields [OF p])
  qed
  then show ?thesis
    by (simp add: hidden_pairs_key_def Let_def prune_ok_refl)
qed

lemma hidden_pairs_group_prune:
  assumes "gr \<in> set (groups (sgrid (fst sp)))"
  shows "prune_ok sp (hidden_pairs_group max_size sp gr)"
  unfolding hidden_pairs_group_def Let_def
proof (rule foldl_prune [OF _ prune_ok_refl])
  fix sp' ki
  assume k: "ki \<in> set (comb_appear max_size (cands_to_cells (sgrid (fst sp)) gr))"
    and p: "prune_ok sp sp'"
  from k have "fst ki \<in> fst ` set (comb_appear max_size (cands_to_cells (sgrid (fst sp)) gr))"
    by simp
  then have "fst ki \<in> snd ` set (cands_to_cells (sgrid (fst sp)) gr)"
    unfolding comb_appear_def using comb_appear_keys [of "fst ki" max_size "[]"] by auto
  then obtain v where "fst ki = holders (sgrid (fst sp)) gr v"
    by (auto simp: cands_to_cells_def)
  then have "q \<in> set (gcells gr) \<and> cvalue (get_cell (sgrid (fst sp')) q) = None"
    if "q \<in> set (fst ki)" for q
    using that holders_subset [of q "sgrid (fst sp)" gr v] by (simp add: prune_ok_fields [OF p])
  with assms show "prune_ok sp' (hidden_pairs_key gr (cands_to_cells (sgrid (fst sp)) gr) sp' ki)"
    by (intro hidden_pairs_key_prune) (simp_all add: prune_ok_fields [OF p])
qed

lemma hidden_pairs_prune: "prune_ok (s, False) (hidden_pairs s)"
  unfolding hidden_pairs_def
  by (rule foldl_groups_prune) (rule hidden_pairs_group_prune)

subsection \<open>\<open>Solver.solve\<close> and \<open>rate\<close>\<close>

text \<open>The loop \<open>while self._naked_single() or self._hidden_single(): changed = True\<close>.
  The second argument is \<open>changed\<close>.\<close>

function level1 :: "solver \<Rightarrow> bool \<Rightarrow> error + solver \<times> bool" where
  "level1 s changed =
     (case naked_single s of
        Inl e \<Rightarrow> Inl e
      | Inr (s1, p1) \<Rightarrow>
          if p1 then level1 s1 True
          else (case hidden_single s1 of
                  Inl e \<Rightarrow> Inl e
                | Inr (s2, p2) \<Rightarrow> if p2 then level1 s2 True else Inr (s2, changed)))"
  by pat_completeness auto

termination level1
proof (relation "measure (\<lambda>(s, changed). weight (sgrid s))")
  show "wf (measure (\<lambda>(s, changed). weight (sgrid s)))" by simp
next
  fix s :: solver and changed :: bool and x s1 p1
  assume "naked_single s = Inr x" "(s1, p1) = x" "p1"
  then have "progress_ok (s, False) (s1, True)"
    by (intro naked_single_progress) simp
  then show "((s1, True), (s, changed)) \<in> measure (\<lambda>(s, changed). weight (sgrid s))"
    by (simp add: progress_ok_def)
next
  fix s :: solver and changed :: bool and x s1 p1 y s2 p2
  assume "naked_single s = Inr x" "(s1, p1) = x" "\<not> p1" "hidden_single s1 = Inr y" "(s2, p2) = y" "p2"
  then have "progress_ok (s, False) (s1, False)" "progress_ok (s1, False) (s2, True)"
    by (auto intro: naked_single_progress hidden_single_progress)
  then have "weight (sgrid s1) \<le> weight (sgrid s)" "weight (sgrid s2) < weight (sgrid s1)"
    by (simp_all add: progress_ok_def shrinks_weight)
  then show "((s2, True), (s, changed)) \<in> measure (\<lambda>(s, changed). weight (sgrid s))"
    by simp
qed

text \<open>One pass of the outer loop \<open>while changed\<close>. \<open>level2\<close> and \<open>level3\<close> are the two
  gated blocks, on the solver and the flag \<open>changed\<close>; the result of the pass is the
  solver, \<open>changed\<close> and whether the pass left the loop by \<open>break\<close>.\<close>

definition level2 :: "int \<Rightarrow> solver \<times> bool \<Rightarrow> solver \<times> bool" where
  "level2 max_difficulty sc =
     (if max_difficulty \<ge> 2
      then (let r = neighbor_elimination (fst sc) in (fst r, snd sc \<or> snd r))
      else sc)"

definition level3 :: "int \<Rightarrow> solver \<times> bool \<Rightarrow> solver \<times> bool" where
  "level3 max_difficulty sc =
     (if max_difficulty \<ge> 3
      then (let r = naked_subsets_generalized (fst sc) in
            if snd r then (fst r, True)
            else (let r' = hidden_pairs (fst r) in (fst r', snd sc \<or> snd r')))
      else sc)"

definition solve_pass :: "int \<Rightarrow> solver \<Rightarrow> error + solver \<times> bool \<times> bool" where
  "solve_pass max_difficulty s =
     (case level1 s False of
        Inl e \<Rightarrow> Inl e
      | Inr sc1 \<Rightarrow>
          if is_complete (sgrid (fst sc1)) then Inr (fst sc1, snd sc1, True)
          else
            let sc2 = level2 max_difficulty sc1 in
            if is_complete (sgrid (fst sc2)) then Inr (fst sc2, snd sc2, True)
            else
              let sc3 = level3 max_difficulty sc2 in
              Inr (fst sc3, snd sc3, is_complete (sgrid (fst sc3))))"

function solve_loop :: "int \<Rightarrow> solver \<Rightarrow> error + solver" where
  "solve_loop max_difficulty s =
     (case solve_pass max_difficulty s of
        Inl e \<Rightarrow> Inl e
      | Inr (s', changed, broke) \<Rightarrow>
          if broke then Inr s'
          else if changed then solve_loop max_difficulty s'
          else Inr s')"
  by pat_completeness auto

text \<open>\<open>clone\<close>, on the values: it copies every field of every cell and of every group
  (that the copy shares no object with the original is the subject of the section on
  \<open>clone\<close>).\<close>

definition clone_grid :: "grid \<Rightarrow> grid" where
  "clone_grid g =
     \<lparr> rows = rows g, cols = cols g,
       cells = (\<lambda>p. \<lparr> cvalue = cvalue (cells g p), candidates = candidates (cells g p),
                      group_id = group_id (cells g p) \<rparr>),
       groups = map (\<lambda>gr. \<lparr> gid = gid gr, gsize = gsize gr, gcells = gcells gr \<rparr>) (groups g) \<rparr>"

lemma level1_progress: "level1 s changed = Inr (s', changed') \<Longrightarrow> progress_ok (s, changed) (s', changed')"
proof (induction s changed rule: level1.induct)
  case (1 s changed)
  from "1.prems" obtain s1 p1 where ns: "naked_single s = Inr (s1, p1)"
    by (subst (asm) level1.simps) (auto split: sum.splits)
  then have p1: "progress_ok (s, False) (s1, p1)" by (rule naked_single_progress)
  show ?case
  proof (cases p1)
    case True
    with ns "1.prems" have "level1 s1 True = Inr (s', changed')"
      by (subst (asm) level1.simps) simp
    with "1.IH"(1) [OF ns refl True] have "progress_ok (s1, True) (s', changed')" by simp
    moreover from p1 True have "progress_ok (s, changed) (s1, True)"
      by (simp add: progress_ok_def)
    ultimately show ?thesis by (blast intro: progress_ok_trans)
  next
    case False
    with ns "1.prems" obtain s2 p2 where hs: "hidden_single s1 = Inr (s2, p2)"
      by (subst (asm) level1.simps) (auto split: sum.splits)
    then have p2: "progress_ok (s1, False) (s2, p2)" by (rule hidden_single_progress)
    from p1 False have a: "progress_ok (s, changed) (s1, changed)"
      by (simp add: progress_ok_def)
    show ?thesis
    proof (cases p2)
      case True
      with ns hs False "1.prems" have "level1 s2 True = Inr (s', changed')"
        by (subst (asm) level1.simps) simp
      with "1.IH"(2) [OF ns refl False hs refl True] have "progress_ok (s2, True) (s', changed')" by simp
      moreover from p2 True have "progress_ok (s1, changed) (s2, True)"
        by (simp add: progress_ok_def)
      ultimately show ?thesis using a by (blast intro: progress_ok_trans)
    next
      case p2F: False
      with ns hs False "1.prems" have "s' = s2" "changed' = changed"
        by (subst (asm) level1.simps, simp)+
      moreover from p2 p2F have "progress_ok (s1, changed) (s2, changed)"
        by (simp add: progress_ok_def)
      ultimately show ?thesis using a by (blast intro: progress_ok_trans)
    qed
  qed
qed

lemma prune_progress:
  assumes "prune_ok (s, False) (s', p)"
  shows "progress_ok (s, c) (s', c \<or> p)"
  using assms by (auto simp: prune_ok_def progress_ok_def)

lemma level2_progress: "progress_ok sc (level2 max_difficulty sc)"
proof (cases "max_difficulty \<ge> 2")
  case True
  have "prune_ok (fst sc, False) (fst (neighbor_elimination (fst sc)), snd (neighbor_elimination (fst sc)))"
    by (rule neighbor_elimination_prune)
  then have "progress_ok (fst sc, snd sc)
      (fst (neighbor_elimination (fst sc)), snd sc \<or> snd (neighbor_elimination (fst sc)))"
    by (rule prune_progress)
  with True show ?thesis by (simp add: level2_def Let_def)
next
  case False
  then show ?thesis by (simp add: level2_def progress_ok_refl)
qed

lemma level3_progress: "progress_ok sc (level3 max_difficulty sc)"
proof (cases "max_difficulty \<ge> 3")
  case False
  then show ?thesis by (simp add: level3_def progress_ok_refl)
next
  case True
  let ?r = "naked_subsets_generalized (fst sc)"
  have "prune_ok (fst sc, False) (fst ?r, snd ?r)"
    using naked_subsets_generalized_prune [of "fst sc"] by simp
  then have a: "progress_ok (fst sc, snd sc) (fst ?r, snd sc \<or> snd ?r)"
    by (rule prune_progress)
  show ?thesis
  proof (cases "snd ?r")
    case r: True
    with a have "progress_ok sc (fst ?r, True)" by simp
    with True r show ?thesis by (simp add: level3_def Let_def)
  next
    case r: False
    let ?r' = "hidden_pairs (fst ?r)"
    have "prune_ok (fst ?r, False) (fst ?r', snd ?r')"
      using hidden_pairs_prune [of "fst ?r"] by simp
    then have "progress_ok (fst ?r, snd sc) (fst ?r', snd sc \<or> snd ?r')"
      by (rule prune_progress)
    moreover from a r have "progress_ok sc (fst ?r, snd sc)" by simp
    ultimately have "progress_ok sc (fst ?r', snd sc \<or> snd ?r')"
      by (blast intro: progress_ok_trans)
    with True r show ?thesis by (simp add: level3_def Let_def)
  qed
qed

lemma solve_pass_progress:
  assumes "solve_pass max_difficulty s = Inr (s', changed, broke)"
  shows "progress_ok (s, False) (s', changed)"
proof -
  from assms obtain sc1 where l1: "level1 s False = Inr sc1"
    unfolding solve_pass_def by (cases "level1 s False") auto
  then have "level1 s False = Inr (fst sc1, snd sc1)" by simp
  then have p1: "progress_ok (s, False) sc1"
    using level1_progress by fastforce
  let ?sc2 = "level2 max_difficulty sc1"
  let ?sc3 = "level3 max_difficulty ?sc2"
  from p1 level2_progress [of sc1 max_difficulty] have p2: "progress_ok (s, False) ?sc2"
    by (rule progress_ok_trans)
  from p2 level3_progress [of ?sc2 max_difficulty] have p3: "progress_ok (s, False) ?sc3"
    by (rule progress_ok_trans)
  from assms have "(s', changed) = sc1 \<or> (s', changed) = ?sc2 \<or> (s', changed) = ?sc3"
    unfolding solve_pass_def l1 by (simp add: Let_def prod_eq_iff split: if_splits)
  with p1 p2 p3 show ?thesis by metis
qed

termination solve_loop
proof (relation "measure (\<lambda>(max_difficulty, s). weight (sgrid s))")
  show "wf (measure (\<lambda>(max_difficulty, s). weight (sgrid s)))" by simp
next
  fix max_difficulty :: int and s :: solver and x s' y changed broke
  assume "solve_pass max_difficulty s = Inr x" "(s', y) = x" "(changed, broke) = y" "\<not> broke" "changed"
  then have "solve_pass max_difficulty s = Inr (s', True, broke)" by simp
  then have "progress_ok (s, False) (s', True)" by (rule solve_pass_progress)
  then show "((max_difficulty, s'), (max_difficulty, s)) \<in> measure (\<lambda>(max_difficulty, s). weight (sgrid s))"
    by (simp add: progress_ok_def)
qed

definition solve :: "grid \<Rightarrow> int \<Rightarrow> error + solve_result" where
  "solve g max_difficulty =
     (case solve_loop max_difficulty
             \<lparr> sgrid = init_candidates (clone_grid g), techniques_used = {} \<rparr> of
        Inl e \<Rightarrow> Inl e
      | Inr s \<Rightarrow>
          Inr \<lparr> solved = is_complete (sgrid s), result_grid = sgrid s,
                result_techniques = techniques_used s, difficulty = 1 \<rparr>)"

text \<open>\<open>rate\<close> (difficulty.py).\<close>

fun rate_levels :: "grid \<Rightarrow> int list \<Rightarrow> error + int" where
  "rate_levels g [] = Inr 4"
| "rate_levels g (level # levels) =
     (case solve (clone_grid g) level of
        Inl e \<Rightarrow> Inl e
      | Inr result \<Rightarrow> if solved result then Inr level else rate_levels g levels)"

definition rate :: "grid \<Rightarrow> error + int" where
  "rate g = rate_levels g [1, 2, 3, 4]"

subsection \<open>The ceiling and the rating\<close>

declare level1.simps [simp del] solve_loop.simps [simp del]

lemma clone_grid_id: "clone_grid g = g"
proof -
  have "map (\<lambda>gr. \<lparr> gid = gid gr, gsize = gsize gr, gcells = gcells gr \<rparr>) (groups g) = groups g"
    by (rule map_idI) simp
  moreover have "(\<lambda>p. \<lparr> cvalue = cvalue (cells g p), candidates = candidates (cells g p),
                      group_id = group_id (cells g p) \<rparr>) = cells g"
    by (rule ext) simp
  ultimately show ?thesis by (simp add: clone_grid_def)
qed

lemma level_ceiling:
  assumes "3 \<le> m"
  shows "level2 m = level2 3" "level3 m = level3 3"
proof -
  from assms have "2 \<le> m" by simp
  then show "level2 m = level2 3" by (simp add: level2_def fun_eq_iff)
  from assms show "level3 m = level3 3" by (simp add: level3_def fun_eq_iff)
qed

lemma solve_pass_ceiling:
  assumes "3 \<le> m"
  shows "solve_pass m s = solve_pass 3 s"
  unfolding solve_pass_def level_ceiling [OF assms] by (rule refl)

lemma solve_loop_ceiling:
  assumes "3 \<le> m"
  shows "solve_loop m s = solve_loop 3 s"
proof (induction "3::int" s rule: solve_loop.induct)
  case (1 s)
  have L: "solve_loop m s =
     (case solve_pass 3 s of
        Inl e \<Rightarrow> Inl e
      | Inr (s', changed, broke) \<Rightarrow>
          if broke then Inr s' else if changed then solve_loop m s' else Inr s')"
    by (subst solve_loop.simps) (simp only: solve_pass_ceiling [OF assms])
  have R: "solve_loop 3 s =
     (case solve_pass 3 s of
        Inl e \<Rightarrow> Inl e
      | Inr (s', changed, broke) \<Rightarrow>
          if broke then Inr s' else if changed then solve_loop 3 s' else Inr s')"
    by (subst solve_loop.simps) (rule refl)
  show ?case
  proof (cases "solve_pass 3 s")
    case (Inl e)
    then show ?thesis unfolding L R by simp
  next
    case (Inr r)
    obtain s' changed broke where r: "r = (s', changed, broke)" by (cases r)
    show ?thesis
    proof (cases "\<not> broke \<and> changed")
      case True
      with "1.hyps" [OF Inr [unfolded r] refl refl] have "solve_loop m s' = solve_loop 3 s'" by simp
      with Inr r True show ?thesis unfolding L R by simp
    next
      case False
      with Inr r show ?thesis unfolding L R by auto
    qed
  qed
qed

lemma solve_ceiling:
  assumes "3 \<le> m"
  shows "solve g m = solve g 3"
  unfolding solve_def solve_loop_ceiling [OF assms] by (rule refl)

text \<open>
  Claim C10. Every result that \<open>solve\<close> returns has the \<open>difficulty\<close> field \<open>1\<close>,
  for every grid and every \<open>max_difficulty\<close>, whatever techniques were applied and
  whether or not the grid was solved.
\<close>

theorem solve_difficulty_constant:
  "solve g max_difficulty = Inr result \<Longrightarrow> difficulty result = 1"
  by (auto simp: solve_def split: sum.splits)

theorem solve_difficulty_constant_witness:
  "\<exists>result. solve (build_cells 1 1 [[0]]) 4 = Inr result \<and> solved result \<and> difficulty result = 1"
proof -
  have "case solve (build_cells 1 1 [[0]]) 4 of Inl e \<Rightarrow> False | Inr r \<Rightarrow> solved r"
    by code_simp
  then obtain r where r: "solve (build_cells 1 1 [[0]]) 4 = Inr r" "solved r"
    by (cases "solve (build_cells 1 1 [[0]]) 4") auto
  with solve_difficulty_constant [OF r(1)] show ?thesis by blast
qed

text \<open>
  Claim C9. \<open>solve\<close> with \<open>max_difficulty = 4\<close> returns what it returns with
  \<open>max_difficulty = 3\<close> (the same outcome: the same solved flag, grid with its values
  and candidates, and techniques, or the same exception), since the ladder tests the
  ceiling against 2 and 3 only. Hence \<open>rate\<close> returns 4 only through its fallback:
  when it does, no ceiling from 1 to 4 solves the board.
\<close>

theorem solve_level4_is_level3:
  "solve g 4 = solve g 3
   \<and> (rate g = Inr 4 \<longrightarrow>
        (\<forall>level \<in> {1, 2, 3, 4}. \<exists>result. solve g level = Inr result \<and> \<not> solved result))"
proof
  show 43: "solve g 4 = solve g 3" by (rule solve_ceiling) simp
  show "rate g = Inr 4 \<longrightarrow>
        (\<forall>level \<in> {1, 2, 3, 4}. \<exists>result. solve g level = Inr result \<and> \<not> solved result)"
  proof
    assume r: "rate g = Inr 4"
    from r obtain r1 where 1: "solve g 1 = Inr r1" "\<not> solved r1"
      by (auto simp: rate_def clone_grid_id split: sum.splits if_splits)
    from r 1 obtain r2 where 2: "solve g 2 = Inr r2" "\<not> solved r2"
      by (auto simp: rate_def clone_grid_id split: sum.splits if_splits)
    from r 1 2 obtain r3 where 3: "solve g 3 = Inr r3" "\<not> solved r3"
      by (auto simp: rate_def clone_grid_id split: sum.splits if_splits)
    from 3 43 have "solve g 4 = Inr r3" by simp
    with 1 2 3 show "\<forall>level \<in> {1, 2, 3, 4}. \<exists>result. solve g level = Inr result \<and> \<not> solved result"
      by simp
  qed
qed

theorem solve_level4_is_level3_witness:
  "rate (build_cells 1 2 [[0, 0]]) = Inr 4
   \<and> solve (build_cells 1 2 [[0, 0]]) 4 = solve (build_cells 1 2 [[0, 0]]) 3
   \<and> (\<exists>result. solve (build_cells 1 2 [[0, 0]]) 4 = Inr result \<and> \<not> solved result)"
proof -
  have r: "rate (build_cells 1 2 [[0, 0]]) = Inr 4"
    by code_simp
  with solve_level4_is_level3 [of "build_cells 1 2 [[0, 0]]"] show ?thesis
    by simp
qed

subsection \<open>\<open>Solver.has_unique_solution\<close>\<close>

text \<open>The loop of \<open>_count_solutions\<close> over the candidates, with the running
  \<open>total_count\<close>; \<open>count v\<close> is the result of the recursive call made after
  \<open>best_cell.value = v\<close>. The loop returns \<open>limit\<close> at the first candidate that brings
  the total to the limit, and the candidates after it are not tried.\<close>

fun count_loop :: "(int \<Rightarrow> nat) \<Rightarrow> nat \<Rightarrow> int list \<Rightarrow> nat \<Rightarrow> nat" where
  "count_loop count limit [] total_count = total_count"
| "count_loop count limit (v # vs) total_count =
     (if total_count + count v \<ge> limit then limit
      else count_loop count limit vs (total_count + count v))"

lemma count_loop_cong [fundef_cong]:
  "\<lbrakk>limit = limit'; vs = vs'; t = t'; \<And>v. v \<in> set vs' \<Longrightarrow> count v = count' v\<rbrakk>
   \<Longrightarrow> count_loop count limit vs t = count_loop count' limit' vs' t'"
proof (induction vs arbitrary: vs' t t')
  case Nil
  then show ?case by simp
next
  case (Cons v vs)
  then show ?case by (cases vs') auto
qed

definition empty_cells :: "grid \<Rightarrow> pos list" where
  "empty_cells g = filter (\<lambda>p. cvalue (get_cell g p) = None) (all_positions (rows g) (cols g))"

lemma best_step_fst:
  "fst (best_step g st p) = fst st \<or> (fst (best_step g st p) = Some p \<and> cvalue (get_cell g p) = None)"
  by (simp add: best_step_def Let_def)

lemma find_best_empty_cell_Some:
  assumes "find_best_empty_cell g = Some p"
  shows "p \<in> set (empty_cells g)"
proof -
  have "fst (foldl (best_step g) st ps) = Some q \<Longrightarrow>
        fst st = Some q \<or> (q \<in> set ps \<and> cvalue (get_cell g q) = None)" for st ps q
  proof (induction ps arbitrary: st)
    case Nil
    then show ?case by simp
  next
    case (Cons a ps)
    from Cons.IH [of "best_step g st a"] Cons.prems best_step_fst [of g st a]
    show ?case by auto
  qed
  from this [of "(None, None)" "all_positions (rows g) (cols g)" p] assms
  show ?thesis by (simp add: find_best_empty_cell_def empty_cells_def)
qed

lemma get_cell_set_value:
  "get_cell (set_value g p v) q = (if q = p then (get_cell g p)\<lparr>cvalue := v\<rparr> else get_cell g q)"
  by (simp add: set_value_def get_cell_upd)

lemma set_value_fields [simp]:
  "rows (set_value g p v) = rows g" "cols (set_value g p v) = cols g"
  "groups (set_value g p v) = groups g"
  by (simp_all add: set_value_def)

lemma length_filter_less_mem:
  assumes "x \<in> set xs" "P x" "\<not> Q x" "\<And>y. Q y \<Longrightarrow> P y"
  shows "length (filter Q xs) < length (filter P xs)"
  using assms(1)
proof (induction xs)
  case Nil
  then show ?case by simp
next
  case (Cons a xs)
  have le: "length (filter Q xs) \<le> length (filter P xs)"
    by (rule length_filter_imp) (rule assms(4))
  show ?case
  proof (cases "a = x")
    case True
    with assms(2,3) le show ?thesis by simp
  next
    case False
    with Cons have "length (filter Q xs) < length (filter P xs)" by simp
    then show ?thesis using assms(4) [of a] by auto
  qed
qed

lemma empty_cells_set_value:
  assumes "p \<in> set (empty_cells g)"
  shows "length (empty_cells (set_value g p (Some v))) < length (empty_cells g)"
  unfolding empty_cells_def set_value_fields
  by (rule length_filter_less_mem [where x = p])
     (use assms in \<open>auto simp: empty_cells_def get_cell_set_value split: if_splits\<close>)

function count_solutions :: "grid \<Rightarrow> nat \<Rightarrow> nat" where
  "count_solutions g limit =
     (if is_complete g then 1
      else case find_best_empty_cell g of
        None \<Rightarrow> 1
      | Some best_cell \<Rightarrow>
          count_loop (\<lambda>v. count_solutions (set_value g best_cell (Some v)) limit) limit
            (get_candidates_for_cell g best_cell) 0)"
  by pat_completeness auto

termination count_solutions
proof (relation "measure (\<lambda>(g, limit). length (empty_cells g))")
  show "wf (measure (\<lambda>(g, limit). length (empty_cells g)))" by simp
next
  fix g :: grid and limit :: nat and best_cell v
  assume "find_best_empty_cell g = Some best_cell"
  then have "best_cell \<in> set (empty_cells g)" by (rule find_best_empty_cell_Some)
  then show "((set_value g best_cell (Some v), limit), (g, limit))
      \<in> measure (\<lambda>(g, limit). length (empty_cells g))"
    by (simp add: empty_cells_set_value)
qed

declare count_solutions.simps [simp del]

definition has_unique_solution :: "grid \<Rightarrow> bool" where
  "has_unique_solution g \<longleftrightarrow> count_solutions (clone_grid g) 2 = 1"

text \<open>What a solution is. \<open>completes g g'\<close>: the grid \<open>g'\<close> is \<open>g\<close> with a value in every
  cell, the cells that \<open>g\<close> has assigned keeping their value. \<open>valid_solution\<close>: the cells
  of each group hold a permutation of \<open>1..size\<close>, and no two adjacent cells hold the same
  value. \<open>values_in_range\<close>: every assigned value lies in \<open>1..size\<close> of the cell's group;
  with \<open>is_valid\<close> it says that the assigned values break no rule.\<close>

definition completes :: "grid \<Rightarrow> grid \<Rightarrow> bool" where
  "completes g g' \<longleftrightarrow>
     rows g' = rows g \<and> cols g' = cols g \<and> groups g' = groups g
     \<and> (\<forall>p. candidates (get_cell g' p) = candidates (get_cell g p)
            \<and> group_id (get_cell g' p) = group_id (get_cell g p))
     \<and> (\<forall>p. in_grid g p \<longrightarrow> cvalue (get_cell g' p) \<noteq> None
               \<and> (cvalue (get_cell g p) \<noteq> None \<longrightarrow> cvalue (get_cell g' p) = cvalue (get_cell g p)))
     \<and> (\<forall>p. \<not> in_grid g p \<longrightarrow> cvalue (get_cell g' p) = cvalue (get_cell g p))"

definition valid_solution :: "grid \<Rightarrow> bool" where
  "valid_solution g \<longleftrightarrow>
     (\<forall>gr \<in> set (groups g).
        distinct (map (\<lambda>q. cvalue (get_cell g q)) (gcells gr))
        \<and> set (map (\<lambda>q. cvalue (get_cell g q)) (gcells gr)) = Some ` {1..gsize gr})
     \<and> (\<forall>p q. in_grid g p \<and> in_grid g q \<and> adjacent p q
            \<longrightarrow> cvalue (get_cell g p) \<noteq> cvalue (get_cell g q))"

definition values_in_range :: "grid \<Rightarrow> bool" where
  "values_in_range g \<longleftrightarrow>
     list_all (\<lambda>gr. list_all (\<lambda>q. case cvalue (get_cell g q) of
                                     None \<Rightarrow> True | Some v \<Rightarrow> 1 \<le> v \<and> v \<le> gsize gr) (gcells gr))
       (groups g)"

definition solutions :: "grid \<Rightarrow> grid set" where
  "solutions g = {g'. completes g g' \<and> valid_solution g'}"

text \<open>The same conditions on the assigned values, cell by cell.\<close>

definition consistent :: "grid \<Rightarrow> bool" where
  "consistent g \<longleftrightarrow>
     (\<forall>gr \<in> set (groups g). \<forall>q \<in> set (gcells gr). \<forall>v. cvalue (get_cell g q) = Some v
         \<longrightarrow> 1 \<le> v \<and> v \<le> gsize gr)
     \<and> (\<forall>gr \<in> set (groups g). \<forall>q \<in> set (gcells gr). \<forall>q' \<in> set (gcells gr). \<forall>v.
           q \<noteq> q' \<and> cvalue (get_cell g q) = Some v \<longrightarrow> cvalue (get_cell g q') \<noteq> Some v)
     \<and> (\<forall>p q v. in_grid g p \<and> in_grid g q \<and> adjacent p q \<and> cvalue (get_cell g p) = Some v
           \<longrightarrow> cvalue (get_cell g q) \<noteq> Some v)"

lemma in_grid_positions: "p \<in> set (all_positions (rows g) (cols g)) \<longleftrightarrow> in_grid g p"
  by (simp add: set_all_positions in_grid_def)

lemma is_complete_iff: "is_complete g \<longleftrightarrow> (\<forall>p. in_grid g p \<longrightarrow> cvalue (get_cell g p) \<noteq> None)"
  unfolding is_complete_def list_all_iff by (auto simp: in_grid_positions)

lemma empty_cells_iff: "p \<in> set (empty_cells g) \<longleftrightarrow> in_grid g p \<and> cvalue (get_cell g p) = None"
  by (auto simp: empty_cells_def in_grid_positions)

lemma wf_gridD:
  assumes "wf_grid g"
  shows "distinct (map gid (groups g))"
    and "gr \<in> set (groups g) \<Longrightarrow> distinct (gcells gr)"
    and "gr \<in> set (groups g) \<Longrightarrow> gsize gr = int (length (gcells gr))"
    and "gr \<in> set (groups g) \<Longrightarrow> q \<in> set (gcells gr) \<Longrightarrow> in_grid g q"
    and "gr \<in> set (groups g) \<Longrightarrow> q \<in> set (gcells gr) \<Longrightarrow> group_id (get_cell g q) = gid gr"
    and "in_grid g p \<Longrightarrow> \<exists>gr \<in> set (groups g). gid gr = group_id (get_cell g p) \<and> p \<in> set (gcells gr)"
proof -
  from assms have 1: "distinct (map gid (groups g))"
    and 2: "\<forall>gr \<in> set (groups g). distinct (gcells gr) \<and> gsize gr = int (length (gcells gr))
           \<and> (\<forall>q \<in> set (gcells gr). in_grid g q \<and> group_id (get_cell g q) = gid gr)"
    and 3: "\<forall>p \<in> set (all_positions (rows g) (cols g)).
           \<exists>gr \<in> set (groups g). gid gr = group_id (get_cell g p) \<and> p \<in> set (gcells gr)"
    unfolding wf_grid_def list_all_iff list_ex_iff by simp_all
  show "distinct (map gid (groups g))" by (rule 1)
  show "gr \<in> set (groups g) \<Longrightarrow> distinct (gcells gr)" using 2 by simp
  show "gr \<in> set (groups g) \<Longrightarrow> gsize gr = int (length (gcells gr))" using 2 by simp
  show "gr \<in> set (groups g) \<Longrightarrow> q \<in> set (gcells gr) \<Longrightarrow> in_grid g q" using 2 by simp
  show "gr \<in> set (groups g) \<Longrightarrow> q \<in> set (gcells gr) \<Longrightarrow> group_id (get_cell g q) = gid gr"
    using 2 by simp
  show "in_grid g p \<Longrightarrow> \<exists>gr \<in> set (groups g). gid gr = group_id (get_cell g p) \<and> p \<in> set (gcells gr)"
    using 3 by (simp add: in_grid_positions)
qed

lemma wf_get_group:
  assumes "wf_grid g" "in_grid g p"
  obtains gr where "get_group g p = Some gr" "gr \<in> set (groups g)" "p \<in> set (gcells gr)"
proof -
  from wf_gridD(6) [OF assms] obtain gr0 where
    gr0: "gr0 \<in> set (groups g)" "gid gr0 = group_id (get_cell g p)" "p \<in> set (gcells gr0)"
    by blast
  then obtain gr where f: "find (\<lambda>gr. gid gr = group_id (get_cell g p)) (groups g) = Some gr"
    by (cases "find (\<lambda>gr. gid gr = group_id (get_cell g p)) (groups g)") (auto simp: find_None_iff)
  then have gr: "gr \<in> set (groups g)" "gid gr = group_id (get_cell g p)"
    by (auto simp: find_Some_iff)
  with gr0 wf_gridD(1) [OF assms(1)] have "gr = gr0"
    by (metis distinct_map inj_onD)
  with f gr0 that show ?thesis by (simp add: get_group_def)
qed

lemma group_id_set_value [simp]: "group_id (get_cell (set_value g p v) q) = group_id (get_cell g q)"
  by (simp add: get_cell_set_value)

lemma candidates_set_value [simp]: "candidates (get_cell (set_value g p v) q) = candidates (get_cell g q)"
  by (simp add: get_cell_set_value)

lemma wf_grid_set_value [simp]: "wf_grid (set_value g p v) = wf_grid g"
  by (simp add: wf_grid_def in_grid_def)

lemma in_grid_set_value [simp]: "in_grid (set_value g p v) q = in_grid g q"
  by (simp add: in_grid_def)

lemma get_group_set_value [simp]: "get_group (set_value g p v) q = get_group g q"
  by (simp add: get_group_def)

lemma neighbors_set_value [simp]: "neighbors (set_value g p v) q = neighbors g q"
  by (simp add: set_value_def)

lemma distinct_filter_mapD:
  assumes "distinct (filter P (map f xs))" "x \<in> set xs" "y \<in> set xs" "f x = f y" "P (f x)"
    and "distinct xs"
  shows "x = y"
proof -
  have "filter P (map f xs) = map f (filter (P \<circ> f) xs)" by (simp add: filter_map)
  with assms(1) have inj: "inj_on f (set (filter (P \<circ> f) xs))" by (simp add: distinct_map)
  from assms have "x \<in> set (filter (P \<circ> f) xs)" "y \<in> set (filter (P \<circ> f) xs)" by simp_all
  with inj assms(4) show ?thesis by (rule inj_onD)
qed

lemma consistentI:
  assumes wf: "wf_grid g" and v: "is_valid g" and r: "values_in_range g"
  shows "consistent g"
proof -
  have a: "1 \<le> v \<and> v \<le> gsize gr"
    if "gr \<in> set (groups g)" "q \<in> set (gcells gr)" "cvalue (get_cell g q) = Some v" for gr q v
    using r that unfolding values_in_range_def list_all_iff by fastforce
  have b: "cvalue (get_cell g q') \<noteq> Some v"
    if "gr \<in> set (groups g)" "q \<in> set (gcells gr)" "q' \<in> set (gcells gr)" "q \<noteq> q'"
      "cvalue (get_cell g q) = Some v" for gr q q' v
  proof
    assume "cvalue (get_cell g q') = Some v"
    moreover from v that(1)
    have "distinct (filter (\<lambda>v. v \<noteq> None) (map (\<lambda>q. cvalue (get_cell g q)) (gcells gr)))"
      unfolding is_valid_def list_all_iff by blast
    ultimately have "q = q'"
      using that wf_gridD(2) [OF wf that(1)]
      by (intro distinct_filter_mapD [where f = "\<lambda>q. cvalue (get_cell g q)" and xs = "gcells gr"
            and P = "\<lambda>v. v \<noteq> None"]) simp_all
    with that(4) show False by simp
  qed
  have c: "cvalue (get_cell g q) \<noteq> Some v"
    if "in_grid g p" "in_grid g q" "adjacent p q" "cvalue (get_cell g p) = Some v" for p q v
  proof -
    from that(1) have "p \<in> set (all_positions (rows g) (cols g))"
      by (simp add: in_grid_positions)
    with v have "cvalue (get_cell g p) = None
        \<or> cvalue (get_cell g p) \<notin> set (map (\<lambda>q. cvalue (get_cell g q)) (neighbors g p))"
      unfolding is_valid_def list_all_iff by blast
    moreover from that have "q \<in> set (neighbors g p)" by (intro neighbors_complete)
    ultimately show ?thesis using that(4) by force
  qed
  from a b c show ?thesis unfolding consistent_def by blast
qed

lemma discard_fold_set:
  "set (foldl (\<lambda>cs q. discard_value (f q) cs) init qs) = {v \<in> set init. \<forall>q \<in> set qs. f q \<noteq> Some v}"
proof (induction qs arbitrary: init)
  case Nil
  then show ?case by simp
next
  case (Cons q qs)
  show ?case
    unfolding foldl_Cons Cons.IH
    by (cases "f q") (auto simp: discard_value_def)
qed

lemma discard_fold_distinct:
  "distinct init \<Longrightarrow> distinct (foldl (\<lambda>cs q. discard_value (f q) cs) init qs)"
proof (induction qs arbitrary: init)
  case Nil
  then show ?case by simp
next
  case (Cons q qs)
  then show ?case
    by (cases "f q") (simp_all add: discard_value_def distinct_removeAll)
qed

lemma candidates_iff:
  assumes "get_group g p = Some gr"
  shows "v \<in> set (get_candidates_for_cell g p) \<longleftrightarrow>
     1 \<le> v \<and> v \<le> gsize gr
     \<and> (\<forall>q \<in> set (gcells gr). q \<noteq> p \<longrightarrow> cvalue (get_cell g q) \<noteq> Some v)
     \<and> (\<forall>q. in_grid g q \<and> adjacent p q \<longrightarrow> cvalue (get_cell g q) \<noteq> Some v)"
  unfolding get_candidates_for_cell_def assms option.case discard_fold_set
  by (auto simp: get_group_peers_def assms set_neighbors)

lemma candidates_distinct: "distinct (get_candidates_for_cell g p)"
  unfolding get_candidates_for_cell_def
  by (cases "get_group g p") (simp_all add: discard_fold_distinct)

lemma completes_fields:
  assumes "completes g g'"
  shows "rows g' = rows g" "cols g' = cols g" "groups g' = groups g" "in_grid g' p = in_grid g p"
    "candidates (get_cell g' p) = candidates (get_cell g p)"
    "group_id (get_cell g' p) = group_id (get_cell g p)"
    "in_grid g p \<Longrightarrow> cvalue (get_cell g' p) \<noteq> None"
    "in_grid g p \<Longrightarrow> cvalue (get_cell g p) = Some v \<Longrightarrow> cvalue (get_cell g' p) = Some v"
    "\<not> in_grid g p \<Longrightarrow> cvalue (get_cell g' p) = cvalue (get_cell g p)"
proof -
  from assms have f: "rows g' = rows g" "cols g' = cols g" "groups g' = groups g"
    and c: "\<forall>p. candidates (get_cell g' p) = candidates (get_cell g p)
            \<and> group_id (get_cell g' p) = group_id (get_cell g p)"
    and i: "\<forall>p. in_grid g p \<longrightarrow> cvalue (get_cell g' p) \<noteq> None
               \<and> (cvalue (get_cell g p) \<noteq> None \<longrightarrow> cvalue (get_cell g' p) = cvalue (get_cell g p))"
    and o: "\<forall>p. \<not> in_grid g p \<longrightarrow> cvalue (get_cell g' p) = cvalue (get_cell g p)"
    unfolding completes_def by blast+
  show "rows g' = rows g" "cols g' = cols g" "groups g' = groups g" by (rule f)+
  show "in_grid g' p = in_grid g p" by (simp add: in_grid_def f)
  show "candidates (get_cell g' p) = candidates (get_cell g p)"
    "group_id (get_cell g' p) = group_id (get_cell g p)" using c by blast+
  show "in_grid g p \<Longrightarrow> cvalue (get_cell g' p) \<noteq> None" using i by blast
  show "in_grid g p \<Longrightarrow> cvalue (get_cell g p) = Some v \<Longrightarrow> cvalue (get_cell g' p) = Some v"
    using i by (metis option.distinct(1))
  show "\<not> in_grid g p \<Longrightarrow> cvalue (get_cell g' p) = cvalue (get_cell g p)" using o by blast
qed

lemma completes_complete_eq:
  assumes "completes g g'" "is_complete g"
  shows "g' = g"
proof -
  have "get_cell g' p = get_cell g p" for p
  proof (rule cell.equality)
    show "cvalue (get_cell g' p) = cvalue (get_cell g p)"
    proof (cases "in_grid g p")
      case True
      with assms(2) obtain v where "cvalue (get_cell g p) = Some v"
        unfolding is_complete_iff by blast
      with True completes_fields(8) [OF assms(1)] show ?thesis by simp
    next
      case False
      with completes_fields(9) [OF assms(1)] show ?thesis by simp
    qed
  qed (simp_all add: completes_fields [OF assms(1)])
  then have "cells g' = cells g" by (simp add: get_cell_def fun_eq_iff)
  with completes_fields(1-3) [OF assms(1)] show ?thesis by (intro grid.equality) simp_all
qed

lemma consistentD:
  assumes "consistent g"
  shows "gr \<in> set (groups g) \<Longrightarrow> q \<in> set (gcells gr) \<Longrightarrow> cvalue (get_cell g q) = Some v
           \<Longrightarrow> 1 \<le> v \<and> v \<le> gsize gr"
    and "gr \<in> set (groups g) \<Longrightarrow> q \<in> set (gcells gr) \<Longrightarrow> q' \<in> set (gcells gr) \<Longrightarrow> q \<noteq> q'
           \<Longrightarrow> cvalue (get_cell g q) = Some v \<Longrightarrow> cvalue (get_cell g q') \<noteq> Some v"
    and "in_grid g p \<Longrightarrow> in_grid g p' \<Longrightarrow> adjacent p p' \<Longrightarrow> cvalue (get_cell g p) = Some v
           \<Longrightarrow> cvalue (get_cell g p') \<noteq> Some v"
proof -
  from assms have a: "\<forall>gr \<in> set (groups g). \<forall>q \<in> set (gcells gr). \<forall>v. cvalue (get_cell g q) = Some v
         \<longrightarrow> 1 \<le> v \<and> v \<le> gsize gr"
    and b: "\<forall>gr \<in> set (groups g). \<forall>q \<in> set (gcells gr). \<forall>q' \<in> set (gcells gr). \<forall>v.
           q \<noteq> q' \<and> cvalue (get_cell g q) = Some v \<longrightarrow> cvalue (get_cell g q') \<noteq> Some v"
    and c: "\<forall>p q v. in_grid g p \<and> in_grid g q \<and> adjacent p q \<and> cvalue (get_cell g p) = Some v
           \<longrightarrow> cvalue (get_cell g q) \<noteq> Some v"
    unfolding consistent_def by blast+
  show "gr \<in> set (groups g) \<Longrightarrow> q \<in> set (gcells gr) \<Longrightarrow> cvalue (get_cell g q) = Some v
           \<Longrightarrow> 1 \<le> v \<and> v \<le> gsize gr"
    using a by blast
  show "gr \<in> set (groups g) \<Longrightarrow> q \<in> set (gcells gr) \<Longrightarrow> q' \<in> set (gcells gr) \<Longrightarrow> q \<noteq> q'
           \<Longrightarrow> cvalue (get_cell g q) = Some v \<Longrightarrow> cvalue (get_cell g q') \<noteq> Some v"
    using b by blast
  show "in_grid g p \<Longrightarrow> in_grid g p' \<Longrightarrow> adjacent p p' \<Longrightarrow> cvalue (get_cell g p) = Some v
           \<Longrightarrow> cvalue (get_cell g p') \<noteq> Some v"
    using c by blast
qed

lemma consistent_valid_solution:
  assumes wf: "wf_grid g" and con: "consistent g" and com: "is_complete g"
  shows "valid_solution g"
proof -
  have grp: "distinct (map (\<lambda>q. cvalue (get_cell g q)) (gcells gr))
        \<and> set (map (\<lambda>q. cvalue (get_cell g q)) (gcells gr)) = Some ` {1..gsize gr}"
    if gr: "gr \<in> set (groups g)" for gr
  proof -
    let ?f = "\<lambda>q. cvalue (get_cell g q)"
    have some: "\<exists>v. ?f q = Some v" if "q \<in> set (gcells gr)" for q
      using com wf_gridD(4) [OF wf gr that] unfolding is_complete_iff by blast
    have "inj_on ?f (set (gcells gr))"
    proof (rule inj_onI)
      fix q q' assume q: "q \<in> set (gcells gr)" "q' \<in> set (gcells gr)" "?f q = ?f q'"
      from some [OF q(1)] obtain v where v: "?f q = Some v" by blast
      show "q = q'"
      proof (rule ccontr)
        assume "q \<noteq> q'"
        from consistentD(2) [OF con gr q(1,2) this v] q(3) v show False by simp
      qed
    qed
    with wf_gridD(2) [OF wf gr] have d: "distinct (map ?f (gcells gr))"
      by (simp add: distinct_map)
    have sub: "set (map ?f (gcells gr)) \<subseteq> Some ` {1..gsize gr}"
    proof
      fix x assume "x \<in> set (map ?f (gcells gr))"
      then obtain q where q: "q \<in> set (gcells gr)" "x = ?f q" by auto
      from some [OF q(1)] obtain v where v: "?f q = Some v" by blast
      from consistentD(1) [OF con gr q(1) v] q(2) v show "x \<in> Some ` {1..gsize gr}" by simp
    qed
    have "card (set (map ?f (gcells gr))) = length (gcells gr)"
      using distinct_card [OF d] by simp
    moreover have "card (Some ` {1..gsize gr}) = length (gcells gr)"
      using wf_gridD(3) [OF wf gr] by (simp add: card_image)
    ultimately have "set (map ?f (gcells gr)) = Some ` {1..gsize gr}"
      using sub by (intro card_subset_eq) simp_all
    with d show ?thesis by simp
  qed
  have adj: "cvalue (get_cell g p) \<noteq> cvalue (get_cell g q)"
    if "in_grid g p" "in_grid g q" "adjacent p q" for p q
  proof -
    from com that(1) obtain v where v: "cvalue (get_cell g p) = Some v"
      unfolding is_complete_iff by blast
    from consistentD(3) [OF con that v] v show ?thesis by simp
  qed
  from grp adj show ?thesis unfolding valid_solution_def by blast
qed

lemma solutions_complete:
  assumes "wf_grid g" "consistent g" "is_complete g"
  shows "solutions g = {g}"
proof -
  from assms(3) have "completes g g"
    unfolding completes_def is_complete_iff by blast
  with consistent_valid_solution [OF assms] have "g \<in> solutions g"
    by (simp add: solutions_def)
  moreover have "g' = g" if "g' \<in> solutions g" for g'
    using that assms(3) by (auto simp: solutions_def intro: completes_complete_eq)
  ultimately show ?thesis by blast
qed

lemma group_unique:
  assumes "wf_grid g" "gr \<in> set (groups g)" "gr' \<in> set (groups g)"
    "p \<in> set (gcells gr)" "p \<in> set (gcells gr')"
  shows "gr = gr'"
proof -
  from wf_gridD(5) [OF assms(1,2,4)] wf_gridD(5) [OF assms(1,3,5)] have "gid gr = gid gr'" by simp
  with wf_gridD(1) [OF assms(1)] assms(2,3) show ?thesis
    by (metis distinct_map inj_onD)
qed

lemma adjacent_sym: "adjacent p q \<Longrightarrow> adjacent q p"
  by (auto simp: adjacent_def)

lemma consistent_set_value:
  assumes wf: "wf_grid g" and con: "consistent g" and p: "in_grid g p"
    and v: "v \<in> set (get_candidates_for_cell g p)"
  shows "consistent (set_value g p (Some v))"
proof -
  from wf p obtain gr0 where gr0: "get_group g p = Some gr0" "gr0 \<in> set (groups g)" "p \<in> set (gcells gr0)"
    by (rule wf_get_group)
  from v candidates_iff [OF gr0(1)] have rng: "1 \<le> v \<and> v \<le> gsize gr0"
    and peers: "\<And>q. q \<in> set (gcells gr0) \<Longrightarrow> q \<noteq> p \<Longrightarrow> cvalue (get_cell g q) \<noteq> Some v"
    and neigh: "\<And>q. in_grid g q \<Longrightarrow> adjacent p q \<Longrightarrow> cvalue (get_cell g q) \<noteq> Some v"
    by blast+
  let ?g = "set_value g p (Some v)"
  note val = get_cell_set_value
  have a: "1 \<le> w \<and> w \<le> gsize gr"
    if "gr \<in> set (groups g)" "q \<in> set (gcells gr)" "cvalue (get_cell ?g q) = Some w" for gr q w
  proof (cases "q = p")
    case True
    with that gr0 have "gr = gr0" by (intro group_unique [OF wf]) simp_all
    with True that(3) rng show ?thesis by (simp add: val)
  next
    case False
    with that(3) consistentD(1) [OF con that(1,2)] show ?thesis by (simp add: val)
  qed
  have b: "cvalue (get_cell ?g q') \<noteq> Some w"
    if "gr \<in> set (groups g)" "q \<in> set (gcells gr)" "q' \<in> set (gcells gr)" "q \<noteq> q'"
      "cvalue (get_cell ?g q) = Some w" for gr q q' w
  proof (cases "q = p")
    case True
    with that gr0 have "gr = gr0" by (intro group_unique [OF wf]) simp_all
    with True that peers [of q'] show ?thesis by (auto simp: val)
  next
    case False
    show ?thesis
    proof (cases "q' = p")
      case True
      with that gr0 have "gr = gr0" by (intro group_unique [OF wf]) simp_all
      with True False that peers [of q] show ?thesis by (auto simp: val)
    next
      case q': False
      with False that(5) consistentD(2) [OF con that(1-4)] show ?thesis by (simp add: val)
    qed
  qed
  have c: "cvalue (get_cell ?g q) \<noteq> Some w"
    if "in_grid g p1" "in_grid g q" "adjacent p1 q" "cvalue (get_cell ?g p1) = Some w" for p1 q w
  proof (cases "p1 = p")
    case True
    with that have "q \<noteq> p" by (auto simp: adjacent_def)
    with True that neigh [of q] show ?thesis by (simp add: val)
  next
    case False
    show ?thesis
    proof (cases "q = p")
      case True
      with that have "adjacent p p1" by (simp add: adjacent_sym)
      with neigh [of p1] that(1,4) False True show ?thesis by (auto simp: val)
    next
      case q: False
      with False that(4) consistentD(3) [OF con that(1-3)] show ?thesis by (simp add: val)
    qed
  qed
  show ?thesis
    unfolding consistent_def set_value_fields in_grid_set_value using a b c by blast
qed

lemma valid_solutionD:
  assumes "valid_solution g"
  shows "gr \<in> set (groups g) \<Longrightarrow> distinct (map (\<lambda>q. cvalue (get_cell g q)) (gcells gr))"
    and "gr \<in> set (groups g) \<Longrightarrow> set (map (\<lambda>q. cvalue (get_cell g q)) (gcells gr)) = Some ` {1..gsize gr}"
    and "in_grid g p \<Longrightarrow> in_grid g q \<Longrightarrow> adjacent p q \<Longrightarrow> cvalue (get_cell g p) \<noteq> cvalue (get_cell g q)"
  using assms unfolding valid_solution_def by blast+

lemma solutions_step:
  assumes wf: "wf_grid g" and p: "in_grid g p" and e: "cvalue (get_cell g p) = None"
  shows "solutions g = (\<Union>v \<in> set (get_candidates_for_cell g p). solutions (set_value g p (Some v)))"
proof (intro set_eqI iffI)
  fix g' assume "g' \<in> solutions g"
  then have c: "completes g g'" and vs: "valid_solution g'" by (simp_all add: solutions_def)
  note cf = completes_fields [OF c]
  from wf p obtain gr0 where gr0: "get_group g p = Some gr0" "gr0 \<in> set (groups g)" "p \<in> set (gcells gr0)"
    by (rule wf_get_group)
  from cf(7) [OF p] obtain v where v: "cvalue (get_cell g' p) = Some v" by blast
  from gr0(2) cf(3) have gr0': "gr0 \<in> set (groups g')" by simp
  have "Some v \<in> set (map (\<lambda>q. cvalue (get_cell g' q)) (gcells gr0))"
    using gr0(3) v by force
  with valid_solutionD(2) [OF vs gr0'] have rng: "1 \<le> v \<and> v \<le> gsize gr0" by auto
  have peers: "cvalue (get_cell g q) \<noteq> Some v" if "q \<in> set (gcells gr0)" "q \<noteq> p" for q
  proof
    assume "cvalue (get_cell g q) = Some v"
    with cf(8) [OF wf_gridD(4) [OF wf gr0(2) that(1)]] have "cvalue (get_cell g' q) = Some v" by simp
    with v have "cvalue (get_cell g' q) = cvalue (get_cell g' p)" by simp
    moreover from valid_solutionD(1) [OF vs gr0']
    have "inj_on (\<lambda>q. cvalue (get_cell g' q)) (set (gcells gr0))"
      by (simp add: distinct_map)
    ultimately have "q = p" using that(1) gr0(3) by (auto dest: inj_onD)
    with that(2) show False by simp
  qed
  have neigh: "cvalue (get_cell g q) \<noteq> Some v" if "in_grid g q" "adjacent p q" for q
  proof
    assume "cvalue (get_cell g q) = Some v"
    with cf(8) [OF that(1)] v have "cvalue (get_cell g' p) = cvalue (get_cell g' q)" by simp
    moreover have "in_grid g' p" "in_grid g' q" using p that(1) by (simp_all add: cf(4))
    ultimately show False using valid_solutionD(3) [OF vs _ _ that(2)] by blast
  qed
  from rng peers neigh have mem: "v \<in> set (get_candidates_for_cell g p)"
    unfolding candidates_iff [OF gr0(1)] by blast
  have "completes (set_value g p (Some v)) g'"
    unfolding completes_def set_value_fields in_grid_set_value group_id_set_value candidates_set_value
  proof (intro conjI allI impI)
    fix q assume q: "in_grid g q" "cvalue (get_cell (set_value g p (Some v)) q) \<noteq> None"
    show "cvalue (get_cell g' q) = cvalue (get_cell (set_value g p (Some v)) q)"
    proof (cases "q = p")
      case True
      with v show ?thesis by (simp add: get_cell_set_value)
    next
      case False
      with q(2) obtain w where "cvalue (get_cell g q) = Some w" by (auto simp: get_cell_set_value)
      with cf(8) [OF q(1)] False show ?thesis by (simp add: get_cell_set_value)
    qed
  next
    fix q assume "\<not> in_grid g q"
    with p cf(9) [of q] show "cvalue (get_cell g' q) = cvalue (get_cell (set_value g p (Some v)) q)"
      by (auto simp: get_cell_set_value)
  qed (simp_all add: cf)
  with vs mem show "g' \<in> (\<Union>v \<in> set (get_candidates_for_cell g p). solutions (set_value g p (Some v)))"
    by (auto simp: solutions_def)
next
  fix g' assume "g' \<in> (\<Union>v \<in> set (get_candidates_for_cell g p). solutions (set_value g p (Some v)))"
  then obtain v where c: "completes (set_value g p (Some v)) g'" and vs: "valid_solution g'"
    by (auto simp: solutions_def)
  note cf = completes_fields [OF c, unfolded set_value_fields in_grid_set_value group_id_set_value candidates_set_value]
  have "completes g g'"
    unfolding completes_def
  proof (intro conjI allI impI)
    fix q assume q: "in_grid g q" "cvalue (get_cell g q) \<noteq> None"
    with e have "q \<noteq> p" by auto
    with q obtain w where "cvalue (get_cell (set_value g p (Some v)) q) = Some w"
      by (auto simp: get_cell_set_value)
    from cf(8) [OF q(1) this] this \<open>q \<noteq> p\<close> show "cvalue (get_cell g' q) = cvalue (get_cell g q)"
      by (simp add: get_cell_set_value)
  next
    fix q assume "\<not> in_grid g q"
    with p cf(9) [of q] show "cvalue (get_cell g' q) = cvalue (get_cell g q)"
      by (auto simp: get_cell_set_value)
  qed (simp_all add: cf)
  with vs show "g' \<in> solutions g" by (simp add: solutions_def)
qed

lemma solutions_disjoint:
  assumes "in_grid g p" "v \<noteq> w"
  shows "solutions (set_value g p (Some v)) \<inter> solutions (set_value g p (Some w)) = {}"
proof -
  have False if "completes (set_value g p (Some v)) g'" "completes (set_value g p (Some w)) g'" for g'
    using completes_fields(8) [OF that(1), of p v] completes_fields(8) [OF that(2), of p w] assms
    by (simp add: get_cell_set_value)
  then show ?thesis by (auto simp: solutions_def)
qed

lemma count_loop_min:
  assumes "t < limit"
  shows "count_loop count limit vs t = min limit (t + sum_list (map count vs))"
  using assms
proof (induction vs arbitrary: t)
  case Nil
  then show ?case by simp
next
  case (Cons v vs)
  then show ?case by (auto simp: min_def)
qed

lemma min_sum_list:
  fixes f :: "'a \<Rightarrow> nat"
  shows "min n (sum_list (map (\<lambda>x. min n (f x)) xs)) = min n (sum_list (map f xs))"
proof (induction xs)
  case Nil
  then show ?case by simp
next
  case (Cons x xs)
  have 1: "min n (min n a + b) = min n (a + b)" for a b :: nat by (simp add: min_def)
  have 2: "min n (a + min n b) = min n (a + b)" for a b :: nat by (simp add: min_def)
  have "min n (sum_list (map (\<lambda>x. min n (f x)) (x # xs)))
      = min n (f x + min n (sum_list (map (\<lambda>x. min n (f x)) xs)))"
    by (simp add: 1 2)
  also have "\<dots> = min n (f x + min n (sum_list (map f xs)))" by (simp only: Cons.IH)
  also have "\<dots> = min n (sum_list (map f (x # xs)))" by (simp add: 2)
  finally show ?case .
qed

lemma count_solutions_solutions:
  assumes "wf_grid g" "consistent g"
  shows "finite (solutions g) \<and> count_solutions g 2 = min 2 (card (solutions g))"
  using assms
proof (induction g "2::nat" rule: count_solutions.induct)
  case (1 g)
  show ?case
  proof (cases "is_complete g")
    case True
    with "1.prems" have "solutions g = {g}" by (intro solutions_complete)
    with True show ?thesis by (subst count_solutions.simps) simp
  next
    case False
    with is_complete_iff [of g] obtain p0 where "in_grid g p0" "cvalue (get_cell g p0) = None"
      by blast
    with empty_cells_iff [of p0 g] have "p0 \<in> set (empty_cells g)"
      by blast
    then have "find_best_empty_cell g \<noteq> None"
    proof -
      have "fst (foldl (best_step g) st ps) \<noteq> None"
        if "fst st = None \<longleftrightarrow> snd st = None"
          "fst st \<noteq> None \<or> (\<exists>q \<in> set ps. cvalue (get_cell g q) = None)" for st ps
        using that
      proof (induction ps arbitrary: st)
        case Nil
        then show ?case by simp
      next
        case (Cons a ps)
        have 1: "fst (best_step g st a) = None \<longleftrightarrow> snd (best_step g st a) = None"
          using Cons.prems(1) by (simp add: best_step_def Let_def)
        have 2: "fst (best_step g st a) \<noteq> None" if "fst st \<noteq> None \<or> cvalue (get_cell g a) = None"
          using that Cons.prems(1) by (cases "snd st") (auto simp: best_step_def Let_def)
        from Cons.prems(2) 2 have "fst (best_step g st a) \<noteq> None
            \<or> (\<exists>q \<in> set ps. cvalue (get_cell g q) = None)" by auto
        with Cons.IH [OF 1] show ?case by simp
      qed
      from this [of "(None, None)" "all_positions (rows g) (cols g)"] \<open>p0 \<in> set (empty_cells g)\<close>
      show ?thesis by (auto simp: find_best_empty_cell_def empty_cells_def)
    qed
    then obtain p where best: "find_best_empty_cell g = Some p" by blast
    then have "p \<in> set (empty_cells g)" by (rule find_best_empty_cell_Some)
    then have p: "in_grid g p" "cvalue (get_cell g p) = None" by (simp_all add: empty_cells_iff)
    let ?cs = "get_candidates_for_cell g p"
    let ?S = "\<lambda>v. solutions (set_value g p (Some v))"
    have IH: "finite (?S v) \<and> count_solutions (set_value g p (Some v)) 2 = min 2 (card (?S v))"
      if "v \<in> set ?cs" for v
      using "1.hyps" [OF False best that] "1.prems" that p(1)
      by (simp add: consistent_set_value)
    have sol: "solutions g = (\<Union>v \<in> set ?cs. ?S v)"
      using "1.prems"(1) p by (rule solutions_step)
    have fin: "finite (solutions g)" unfolding sol using IH by blast
    have "card (solutions g) = (\<Sum>v \<in> set ?cs. card (?S v))"
      unfolding sol using IH solutions_disjoint [OF p(1)]
      by (intro card_UN_disjoint) auto
    also have "\<dots> = sum_list (map (\<lambda>v. card (?S v)) ?cs)"
      by (simp add: sum_list_distinct_conv_sum_set candidates_distinct)
    finally have card: "card (solutions g) = sum_list (map (\<lambda>v. card (?S v)) ?cs)" .
    have "count_solutions g 2 =
        count_loop (\<lambda>v. count_solutions (set_value g p (Some v)) 2) 2 ?cs 0"
      using False best by (subst count_solutions.simps) simp
    also have "\<dots> = count_loop (\<lambda>v. min 2 (card (?S v))) 2 ?cs 0"
      using IH by (intro count_loop_cong) simp_all
    also have "\<dots> = min 2 (sum_list (map (\<lambda>v. min 2 (card (?S v))) ?cs))"
      by (simp add: count_loop_min)
    also have "\<dots> = min 2 (card (solutions g))"
      unfolding card by (rule min_sum_list)
    finally show ?thesis using fin by simp
  qed
qed

lemma count_loop_abort:
  assumes "limit \<le> t + sum_list (map count vs)" "t < limit"
  shows "count_loop count limit (vs @ ws) t = limit"
  using assms
proof (induction vs arbitrary: t)
  case Nil
  then show ?case by simp
next
  case (Cons v vs)
  then show ?case by (auto simp: add.assoc)
qed

lemma card_one_ex1: "card A = Suc 0 \<longleftrightarrow> (\<exists>!x. x \<in> A)"
proof
  assume "card A = Suc 0"
  then obtain a where "A = {a}" by (auto simp: card_1_singleton_iff)
  then show "\<exists>!x. x \<in> A" by simp
next
  assume "\<exists>!x. x \<in> A"
  then obtain a where "a \<in> A" "\<And>x. x \<in> A \<Longrightarrow> x = a" by blast
  then have "A = {a}" by blast
  then show "card A = Suc 0" by simp
qed

text \<open>
  Claim C1, amended. For every well-formed grid whose assigned values break no rule
  (\<open>is_valid\<close> holds and every assigned value lies in \<open>1..size\<close> of its group),
  \<open>has_unique_solution\<close> returns true if and only if exactly one complete assignment
  agrees with the assigned values and satisfies every constraint. The enumeration
  stops at the second solution: once the candidates tried so far have brought the count
  to 2, the loop returns 2 whatever candidates remain.
\<close>

theorem has_unique_solution_iff:
  assumes "wf_grid g" "is_valid g" "values_in_range g"
  shows "(has_unique_solution g \<longleftrightarrow> (\<exists>!g'. completes g g' \<and> valid_solution g'))
     \<and> (\<forall>count vs ws. 2 \<le> sum_list (map count vs) \<longrightarrow> count_loop count 2 (vs @ ws) 0 = 2)"
proof
  from assms have "consistent g" by (rule consistentI)
  with assms(1) have fin: "finite (solutions g)"
    and cnt: "count_solutions g 2 = min 2 (card (solutions g))"
    using count_solutions_solutions by blast+
  have "has_unique_solution g \<longleftrightarrow> card (solutions g) = Suc 0"
    unfolding has_unique_solution_def clone_grid_id cnt by (auto simp: min_def)
  also have "\<dots> \<longleftrightarrow> (\<exists>!g'. g' \<in> solutions g)"
    by (rule card_one_ex1)
  also have "\<dots> \<longleftrightarrow> (\<exists>!g'. completes g g' \<and> valid_solution g')"
    by (simp add: solutions_def)
  finally show "has_unique_solution g \<longleftrightarrow> (\<exists>!g'. completes g g' \<and> valid_solution g')" .
  show "\<forall>count vs ws. 2 \<le> sum_list (map count vs) \<longrightarrow> count_loop count 2 (vs @ ws) 0 = 2"
    by (simp add: count_loop_abort)
qed

theorem has_unique_solution_iff_witness:
  "wf_grid (set_value (build_cells 1 2 [[0, 0]]) (0, 0) (Some 1))
   \<and> is_valid (set_value (build_cells 1 2 [[0, 0]]) (0, 0) (Some 1))
   \<and> values_in_range (set_value (build_cells 1 2 [[0, 0]]) (0, 0) (Some 1))
   \<and> has_unique_solution (set_value (build_cells 1 2 [[0, 0]]) (0, 0) (Some 1))
   \<and> (\<exists>!g'. completes (set_value (build_cells 1 2 [[0, 0]]) (0, 0) (Some 1)) g' \<and> valid_solution g')"
proof -
  let ?g = "set_value (build_cells 1 2 [[0, 0]]) (0, 0) (Some 1)"
  have h: "wf_grid ?g" "is_valid ?g" "values_in_range ?g" "has_unique_solution ?g"
    by code_simp+
  with has_unique_solution_iff [OF h(1-3)] show ?thesis by blast
qed

text \<open>
  Claim C1 as stated fails on a grid whose assigned values already break a rule:
  \<open>_count_solutions\<close> returns 1 for a complete grid without checking it. In the grid
  of one row and one group of two cells, both holding 1, \<open>has_unique_solution\<close> is true
  and no valid assignment exists.
\<close>

theorem has_unique_solution_invalid_counterexample:
  "wf_grid (set_value (set_value (build_cells 1 2 [[0, 0]]) (0, 0) (Some 1)) (0, 1) (Some 1))
   \<and> has_unique_solution (set_value (set_value (build_cells 1 2 [[0, 0]]) (0, 0) (Some 1)) (0, 1) (Some 1))
   \<and> \<not> (\<exists>g'. completes (set_value (set_value (build_cells 1 2 [[0, 0]]) (0, 0) (Some 1)) (0, 1) (Some 1)) g'
              \<and> valid_solution g')"
proof -
  let ?g = "set_value (set_value (build_cells 1 2 [[0, 0]]) (0, 0) (Some 1)) (0, 1) (Some 1)"
  have h: "wf_grid ?g" "has_unique_solution ?g"
    by code_simp+
  have i: "in_grid ?g (0, 0)" "in_grid ?g (0, 1)" "adjacent (0, 0) (0, 1)"
    by (simp_all add: in_grid_def build_cells_def adjacent_def)
  have v: "cvalue (get_cell ?g (0, 0)) = Some 1" "cvalue (get_cell ?g (0, 1)) = Some 1"
    by (simp_all add: get_cell_set_value)
  have False if c: "completes ?g g'" and s: "valid_solution g'" for g'
  proof -
    from completes_fields(8) [OF c i(1) v(1)] completes_fields(8) [OF c i(2) v(2)]
    have "cvalue (get_cell g' (0, 0)) = cvalue (get_cell g' (0, 1))" by simp
    moreover from i have "in_grid g' (0, 0)" "in_grid g' (0, 1)"
      by (simp_all only: completes_fields(4) [OF c])
    ultimately show False using valid_solutionD(3) [OF s _ _ i(3)] by blast
  qed
  with h show ?thesis by blast
qed

section \<open>Region layout generator (group_generator.py)\<close>

text \<open>Randomness is an explicit supply of numbers: \<open>random.shuffle\<close> draws one number for
  each index \<open>i\<close> from the last down to 1 and exchanges the entries \<open>i\<close> and
  \<open>j = r mod (i + 1)\<close>; an exhausted supply yields zeros. Every permutation is the result
  of some supply.\<close>

type_synonym rng = "nat list"

definition draw :: "rng \<Rightarrow> nat \<times> rng" where
  "draw rs = (case rs of [] \<Rightarrow> (0, []) | r # rs' \<Rightarrow> (r, rs'))"

fun shuffle_from :: "nat \<Rightarrow> rng \<Rightarrow> 'a list \<Rightarrow> 'a list \<times> rng" where
  "shuffle_from 0 rs xs = (xs, rs)"
| "shuffle_from (Suc i) rs xs =
     (let (r, rs') = draw rs; j = r mod (Suc i + 1) in
      shuffle_from i rs' (xs[Suc i := xs ! j, j := xs ! Suc i]))"

definition shuffle :: "rng \<Rightarrow> 'a list \<Rightarrow> 'a list \<times> rng" where
  "shuffle rs xs = shuffle_from (length xs - 1) rs xs"

text \<open>The layout is the 2D list of group ids. \<open>group_sizes\<close> is a dictionary whose keys
  are all inserted, in ascending order, before the merges, which only assign to them.\<close>

type_synonym layout = "int list list"

definition initial_layout :: "nat \<Rightarrow> nat \<Rightarrow> layout" where
  "initial_layout nrows mcols = map (\<lambda>r. map (\<lambda>c. int (r * mcols + c)) [0..<mcols]) [0..<nrows]"

definition all_pairs :: "nat \<Rightarrow> nat \<Rightarrow> (pos \<times> pos) list" where
  "all_pairs nrows mcols =
     concat (map (\<lambda>r. map (\<lambda>c. ((r, c), (r, c + 1))) [0..<mcols - 1]) [0..<nrows])
     @ concat (map (\<lambda>r. map (\<lambda>c. ((r, c), (r + 1, c))) [0..<mcols]) [0..<nrows - 1])"

definition size_of :: "(int \<times> int) list \<Rightarrow> int \<Rightarrow> int" where
  "size_of group_sizes k = (case map_of group_sizes k of Some n \<Rightarrow> n | None \<Rightarrow> 0)"

definition set_size :: "(int \<times> int) list \<Rightarrow> int \<Rightarrow> int \<Rightarrow> (int \<times> int) list" where
  "set_size group_sizes k n = map (\<lambda>(k', n'). if k' = k then (k', n) else (k', n')) group_sizes"

definition merge_groups :: "layout \<Rightarrow> int \<Rightarrow> int \<Rightarrow> layout" where
  "merge_groups lay group_a group_b = map (map (\<lambda>x. if x = group_b then group_a else x)) lay"

definition merge_pair ::
    "int \<Rightarrow> layout \<times> (int \<times> int) list \<Rightarrow> pos \<times> pos \<Rightarrow> layout \<times> (int \<times> int) list" where
  "merge_pair max_size st pr =
     (let lay = fst st; group_sizes = snd st;
          group_a = lay ! fst (fst pr) ! snd (fst pr);
          group_b = lay ! fst (snd pr) ! snd (snd pr) in
      if group_a = group_b then st
      else
        let merged_size = size_of group_sizes group_a + size_of group_sizes group_b in
        if merged_size \<le> max_size then
          let a = (if size_of group_sizes group_a < size_of group_sizes group_b then group_b else group_a);
              b = (if size_of group_sizes group_a < size_of group_sizes group_b then group_a else group_b)
          in (merge_groups lay a b,
              set_size (set_size group_sizes a (size_of group_sizes a + size_of group_sizes b)) b 0)
        else st)"

text \<open>\<open>_get_adjacent_groups\<close> returns a set of ids; the model keeps its members in the
  order in which they are added. \<open>min(neighbors, key=...)\<close> takes the first member of least
  size in the order in which the set is traversed. The language leaves that order open
  (CPython follows its hash table), so it is a parameter of the model: \<open>iter xs x\<close> is the
  rank of the member \<open>x\<close> in the traversal of the set built by adding the elements of \<open>xs\<close>
  in turn, and \<open>traverse iter xs\<close> is that traversal.\<close>

type_synonym set_order = "int list \<Rightarrow> int \<Rightarrow> nat"

definition traverse :: "set_order \<Rightarrow> int list \<Rightarrow> int list" where
  "traverse iter xs = sort_key (iter xs) xs"

definition get_adjacent_groups :: "int \<Rightarrow> layout \<Rightarrow> int list" where
  "get_adjacent_groups g_id lay =
     rev (remdups (rev (concat (map (\<lambda>(row, col).
        if lay ! row ! col = g_id then
          map (\<lambda>(x, y). lay ! nat x ! nat y)
            (filter (\<lambda>(x, y). 0 \<le> x \<and> x < int (length lay) \<and> 0 \<le> y \<and> y < int (length (lay ! 0))
                            \<and> lay ! nat x ! nat y \<noteq> g_id)
               [(int row - 1, int col), (int row + 1, int col), (int row, int col - 1), (int row, int col + 1)])
        else [])
       (all_positions (length lay) (length (lay ! 0)))))))"

fun min_by :: "('a \<Rightarrow> int) \<Rightarrow> 'a \<Rightarrow> 'a list \<Rightarrow> 'a" where
  "min_by key best [] = best"
| "min_by key best (x # xs) = min_by key (if key x < key best then x else best) xs"

definition repair_group ::
    "set_order \<Rightarrow> layout \<times> (int \<times> int) list \<Rightarrow> int \<Rightarrow> layout \<times> (int \<times> int) list" where
  "repair_group iter st small_gid =
     (let lay = fst st; group_sizes = snd st in
      case traverse iter (get_adjacent_groups small_gid lay) of
        [] \<Rightarrow> st
      | n # ns \<Rightarrow>
          let smallest_neighbor = min_by (size_of group_sizes) n ns in
          (merge_groups lay smallest_neighbor small_gid,
           set_size (set_size group_sizes smallest_neighbor
                       (size_of group_sizes smallest_neighbor + size_of group_sizes small_gid))
             small_gid 0))"

text \<open>The repair loop; the second argument is \<open>MAX_ITERATIONS - iterations\<close>.\<close>

fun repair :: "set_order \<Rightarrow> nat \<Rightarrow> int \<Rightarrow> layout \<times> (int \<times> int) list \<Rightarrow> layout option" where
  "repair iter remaining min_size st =
     (let small_groups = map fst (filter (\<lambda>(k, n). n > 0 \<and> n < min_size) (snd st)) in
      if small_groups = [] then Some (fst st)
      else case remaining of
        0 \<Rightarrow> None
      | Suc k \<Rightarrow> repair iter k min_size (foldl (repair_group iter) st small_groups))"

definition group_generate ::
    "set_order \<Rightarrow> int \<Rightarrow> int \<Rightarrow> nat \<Rightarrow> nat \<Rightarrow> rng \<Rightarrow> layout option \<times> rng" where
  "group_generate iter min_size max_size nrows mcols rs =
     (let lay = initial_layout nrows mcols;
          (pairs, rs') = shuffle rs (all_pairs nrows mcols);
          group_sizes = count_group_sizes lay;
          st = foldl (merge_pair max_size) (lay, group_sizes) pairs
      in (repair iter (nrows * mcols) min_size st, rs'))"

text \<open>
  Claim C2 at a concrete input. With \<open>min_size = 2\<close>, \<open>max_size = 5\<close>, one row of six
  cells and a shuffle that leaves the pairs in their order, the first pass builds the
  group \<open>{0..4}\<close> of five cells and refuses the pair that would make six; the repair
  loop then merges the single cell left into that group without looking at
  \<open>max_size\<close>, and \<open>generate\<close> returns a layout whose only group has six cells. The
  cell has one adjacent group, so the order of traversal of the set plays no part.
\<close>

theorem group_generate_exceeds_max_size:
  "fst (shuffle [4, 3, 2, 1] (all_pairs 1 6)) = all_pairs 1 6
   \<and> fst (group_generate iter 2 5 1 6 [4, 3, 2, 1]) = Some [[0, 0, 0, 0, 0, 0]]
   \<and> count_group_sizes [[0, 0, 0, 0, 0, 0]] = [(0, 6)]"
  by code_simp

section \<open>Puzzle generator (generator.py)\<close>

text \<open>\<open>_fill_grid_recursive\<close>. The state is the two counters of the generator object and
  the random supply. \<open>FillTimeout\<close> carries the state at the moment it is raised, since
  the random supply goes on after \<open>_fill_grid\<close> has caught it. The result \<open>Some g\<close> is
  \<open>True\<close> with the grid filled, \<open>None\<close> is \<open>False\<close> with the grid as it was on entry
  (each value tried is taken back).\<close>

record fill_state =
  fill_call_count :: nat
  early_failures :: nat
  fill_rng :: rng

datatype fill_timeout = FillTimeout fill_state

fun try_values ::
    "(int \<Rightarrow> fill_state \<Rightarrow> fill_timeout + grid option \<times> fill_state) \<Rightarrow> int list \<Rightarrow> fill_state
     \<Rightarrow> fill_timeout + grid option \<times> fill_state" where
  "try_values rec [] st = Inr (None, st)"
| "try_values rec (v # vs) st =
     (case rec v st of
        Inl e \<Rightarrow> Inl e
      | Inr (Some g', st') \<Rightarrow> Inr (Some g', st')
      | Inr (None, st') \<Rightarrow> try_values rec vs st')"

lemma try_values_cong [fundef_cong]:
  "\<lbrakk>vs = vs'; st = st'; \<And>v s. v \<in> set vs' \<Longrightarrow> rec v s = rec' v s\<rbrakk>
   \<Longrightarrow> try_values rec vs st = try_values rec' vs' st'"
proof (induction vs arbitrary: vs' st st')
  case Nil
  then show ?case by simp
next
  case (Cons v vs)
  then show ?case by (cases vs') (auto split: sum.splits option.splits prod.splits)
qed

function fill_grid_recursive :: "grid \<Rightarrow> fill_state \<Rightarrow> fill_timeout + grid option \<times> fill_state" where
  "fill_grid_recursive g st =
     (let st1 = st\<lparr>fill_call_count := fill_call_count st + 1\<rparr> in
      case find_best_empty_cell g of
        None \<Rightarrow> Inr (Some g, st1)
      | Some cell \<Rightarrow>
          let cands = get_candidates_for_cell g cell in
          if cands = [] then
            (let st2 = st1\<lparr>early_failures := early_failures st1 + 1\<rparr> in
             if early_failures st2 > 100 then Inl (FillTimeout st2) else Inr (None, st2))
          else
            let (candidates_list, rs') = shuffle (fill_rng st1) cands in
            try_values (\<lambda>v. fill_grid_recursive (set_value g cell (Some v))) candidates_list
              (st1\<lparr>fill_rng := rs'\<rparr>))"
  by pat_completeness auto

termination fill_grid_recursive
proof (relation "measure (\<lambda>(g, st). length (empty_cells g))")
  show "wf (measure (\<lambda>(g, st). length (empty_cells g)))" by simp
next
  fix g :: grid and st st1 :: fill_state and cell cands x candidates_list rs' v s
  assume "find_best_empty_cell g = Some cell"
  then have "cell \<in> set (empty_cells g)" by (rule find_best_empty_cell_Some)
  then show "((set_value g cell (Some v), s), (g, st)) \<in> measure (\<lambda>(g, st). length (empty_cells g))"
    by (simp add: empty_cells_set_value)
qed

declare fill_grid_recursive.simps [simp del]

text \<open>\<open>_fill_grid\<close> catches \<open>FillTimeout\<close> and returns \<open>False\<close>.\<close>

definition fill_grid :: "grid \<Rightarrow> rng \<Rightarrow> grid option \<times> rng" where
  "fill_grid g rs =
     (case fill_grid_recursive g \<lparr> fill_call_count = 0, early_failures = 0, fill_rng = rs \<rparr> of
        Inl (FillTimeout st) \<Rightarrow> (None, fill_rng st)
      | Inr (result, st) \<Rightarrow> (result, fill_rng st))"

text \<open>\<open>removal_percentage\<close> is a float. \<open>Finite m e\<close> is the number \<open>m \<times> 2\<^sup>e\<close>, a double when
  \<open>\<bar>m\<bar> < 2\<^sup>5\<^sup>3\<close> and \<open>-1074 \<le> e \<le> 971\<close>; the sign of an infinity plays no part below.
  \<open>total_cells * removal_percentage\<close> converts the integer to a float (which raises
  \<open>OverflowError\<close> beyond the range of the doubles) and multiplies, each time rounding to
  53 significant bits, to the nearest and on a tie to the even one (\<open>round53 n e\<close> rounds
  \<open>n \<times> 2\<^sup>e\<close> for \<open>n \<ge> 0\<close>), and giving an infinity beyond the range; \<open>int(x)\<close> truncates towards zero, and raises on an infinity
  or a NaN. \<open>removal_limit\<close> is \<open>int(total_cells * removal_percentage)\<close>.\<close>

datatype pyfloat = Finite int int | Infinity | NaN

function bit_length :: "int \<Rightarrow> nat" where
  "bit_length n = (if n \<le> 0 then 0 else Suc (bit_length (n div 2)))"
  by pat_completeness auto

termination bit_length
  by (relation "measure nat") auto

declare bit_length.simps [simp del]

definition round53 :: "int \<Rightarrow> int \<Rightarrow> int \<times> int" where
  "round53 n e =
     (let k = bit_length n - 53 in
      if k = 0 then (n, e)
      else
        let q = n div 2 ^ k; r = n mod 2 ^ k; half = 2 ^ (k - 1) in
        (if r > half \<or> (r = half \<and> odd q) then q + 1 else q, e + int k))"

definition overflows :: "int \<times> int \<Rightarrow> bool" where
  "overflows x \<longleftrightarrow> int (bit_length (fst x)) + snd x > 1024"

definition mul_int_float :: "nat \<Rightarrow> pyfloat \<Rightarrow> error + pyfloat" where
  "mul_int_float n x =
     (let a = round53 (int n) 0 in
      if overflows a then Inl OverflowError
      else Inr
        (case x of
           NaN \<Rightarrow> NaN
         | Infinity \<Rightarrow> if fst a = 0 then NaN else Infinity
         | Finite m e \<Rightarrow>
             let y = round53 (fst a * \<bar>m\<bar>) (snd a + e) in
             if overflows y then Infinity
             else Finite ((if m < 0 then - 1 else 1) * fst y) (snd y)))"

definition int_of_float :: "pyfloat \<Rightarrow> error + int" where
  "int_of_float x =
     (case x of
        NaN \<Rightarrow> Inl ValueError
      | Infinity \<Rightarrow> Inl OverflowError
      | Finite m e \<Rightarrow>
          Inr (if e \<ge> 0 then m * 2 ^ nat e
               else (if m < 0 then - 1 else 1) * (\<bar>m\<bar> div 2 ^ nat (- e))))"

definition removal_limit :: "nat \<Rightarrow> pyfloat \<Rightarrow> error + int" where
  "removal_limit total_cells removal_percentage =
     (case mul_int_float total_cells removal_percentage of
        Inl e \<Rightarrow> Inl e
      | Inr x \<Rightarrow> int_of_float x)"

text \<open>\<open>_remove_clues\<close>.\<close>

fun remove_loop :: "int \<Rightarrow> int \<Rightarrow> grid \<Rightarrow> int \<Rightarrow> pos list \<Rightarrow> error + grid" where
  "remove_loop target_difficulty max_removals g removed_count [] = Inr g"
| "remove_loop target_difficulty max_removals g removed_count (cell # filled_cells) =
     (if removed_count \<ge> max_removals then Inr g
      else
        let val = cvalue (get_cell g cell);
            g1 = set_value g cell None in
        case solve (clone_grid g1) target_difficulty of
          Inl e \<Rightarrow> Inl e
        | Inr result \<Rightarrow>
            if solved result \<and> has_unique_solution g1
            then remove_loop target_difficulty max_removals g1 (removed_count + 1) filled_cells
            else remove_loop target_difficulty max_removals (set_value g1 cell val) removed_count
                   filled_cells)"

definition remove_clues :: "grid \<Rightarrow> int \<Rightarrow> pyfloat \<Rightarrow> rng \<Rightarrow> (error + grid) \<times> rng" where
  "remove_clues g target_difficulty removal_percentage rs =
     (let (filled_cells, rs') =
            shuffle rs (filter (\<lambda>p. cvalue (get_cell g p) \<noteq> None) (all_positions (rows g) (cols g)));
          total_cells = length filled_cells
      in case removal_limit total_cells removal_percentage of
           Inl e \<Rightarrow> (Inl e, rs')
         | Inr max_removals \<Rightarrow> (remove_loop target_difficulty max_removals g 0 filled_cells, rs'))"

text \<open>\<open>Generator.generate\<close>. The second argument of the loop is the number of attempts
  left, and \<open>attempt\<close> is the loop variable; a puzzle is returned with the number of the
  attempt that produced it. The seed and the state of the random module are the supply
  \<open>rs\<close>. The attribute \<open>solution\<close>, which only the serializer reads, is left out.\<close>

record config =
  cfg_rows :: nat
  cfg_cols :: nat
  cfg_difficulty :: int
  cfg_removal_percentage :: pyfloat
  cfg_max_group_size :: int
  cfg_min_group_size :: int

fun attempts :: "set_order \<Rightarrow> nat \<Rightarrow> nat \<Rightarrow> config \<Rightarrow> rng \<Rightarrow> error + (grid \<times> nat) option" where
  "attempts iter 0 attempt cfg rs = Inr None"
| "attempts iter (Suc n) attempt cfg rs =
     (case group_generate iter (cfg_min_group_size cfg) (cfg_max_group_size cfg)
             (cfg_rows cfg) (cfg_cols cfg) rs of
        (None, rs1) \<Rightarrow> attempts iter n (attempt + 1) cfg rs1
      | (Some lay, rs1) \<Rightarrow>
          (case fill_grid (build_cells (cfg_rows cfg) (cfg_cols cfg) lay) rs1 of
             (None, rs2) \<Rightarrow> attempts iter n (attempt + 1) cfg rs2
           | (Some g, rs2) \<Rightarrow>
               (case remove_clues g (cfg_difficulty cfg) (cfg_removal_percentage cfg) rs2 of
                  (Inl e, rs3) \<Rightarrow> Inl e
                | (Inr g', rs3) \<Rightarrow>
                    (case rate g' of
                       Inl e \<Rightarrow> Inl e
                     | Inr actual_difficulty \<Rightarrow>
                         if actual_difficulty = cfg_difficulty cfg then Inr (Some (g', attempt))
                         else attempts iter n (attempt + 1) cfg rs3))))"

definition generate :: "set_order \<Rightarrow> config \<Rightarrow> rng \<Rightarrow> error + (grid \<times> nat) option" where
  "generate iter cfg rs = attempts iter 25 0 cfg rs"

subsection \<open>Clue removal and the difficulty contract\<close>

lemma set_value_restore: "set_value (set_value g p v) p (cvalue (get_cell g p)) = g"
proof -
  have "(cells g)(p := (cells g p)\<lparr>cvalue := cvalue (cells g p)\<rparr>) = cells g"
    by (simp add: fun_eq_iff)
  then show ?thesis
    by (simp add: set_value_def upd_cell_def get_cell_def)
qed

lemma remove_loop_result:
  assumes "remove_loop td m g r cs = Inr g'"
  shows "(g' = g \<or> (\<exists>result. solve (clone_grid g') td = Inr result \<and> solved result
                        \<and> has_unique_solution g'))
       \<and> (\<forall>p. cvalue (get_cell g' p) = cvalue (get_cell g p)
              \<or> (cvalue (get_cell g' p) = None \<and> p \<in> set cs))
       \<and> int (length (filter (\<lambda>p. cvalue (get_cell g' p) \<noteq> cvalue (get_cell g p)) (remdups cs)))
           \<le> max 0 (m - r)"
  using assms
proof (induction cs arbitrary: g r)
  case Nil
  then show ?case by simp
next
  case (Cons c cs)
  show ?case
  proof (cases "r \<ge> m")
    case True
    with Cons.prems have "g' = g" by simp
    then show ?thesis by simp
  next
    case False
    let ?g1 = "set_value g c None"
    from False Cons.prems obtain result where res: "solve (clone_grid ?g1) td = Inr result"
      by (auto simp: Let_def split: sum.splits)
    show ?thesis
    proof (cases "solved result \<and> has_unique_solution ?g1")
      case True
      with False res Cons.prems have "remove_loop td m ?g1 (r + 1) cs = Inr g'"
        by (simp add: Let_def)
      note IH = Cons.IH [OF this]
      from IH have ih1: "g' = ?g1 \<or> (\<exists>result. solve (clone_grid g') td = Inr result \<and> solved result
                        \<and> has_unique_solution g')" by blast
      from IH have ih2: "cvalue (get_cell g' p) = cvalue (get_cell ?g1 p)
              \<or> (cvalue (get_cell g' p) = None \<and> p \<in> set cs)" for p by blast
      from IH have ih3: "int (length (filter (\<lambda>p. cvalue (get_cell g' p) \<noteq> cvalue (get_cell ?g1 p))
            (remdups cs))) \<le> max 0 (m - (r + 1))" by blast
      have 1: "g' = g \<or> (\<exists>result. solve (clone_grid g') td = Inr result \<and> solved result
                        \<and> has_unique_solution g')"
        using ih1 True res by auto
      have 2: "cvalue (get_cell g' p) = cvalue (get_cell g p)
              \<or> (cvalue (get_cell g' p) = None \<and> p \<in> set (c # cs))" for p
        using ih2 [of p] by (cases "p = c") (auto simp: get_cell_set_value)
      have eq: "cvalue (get_cell g' p) \<noteq> cvalue (get_cell ?g1 p) \<longleftrightarrow> cvalue (get_cell g' p) \<noteq> cvalue (get_cell g p)"
        if "p \<noteq> c" for p
        using that by (simp add: get_cell_set_value)
      have "length (filter (\<lambda>p. cvalue (get_cell g' p) \<noteq> cvalue (get_cell g p)) (remdups (c # cs)))
          \<le> Suc (length (filter (\<lambda>p. cvalue (get_cell g' p) \<noteq> cvalue (get_cell ?g1 p)) (remdups cs)))"
      proof (cases "c \<in> set cs")
        case True
        have "length (filter (\<lambda>p. cvalue (get_cell g' p) \<noteq> cvalue (get_cell g p)) (remdups cs))
            \<le> Suc (length (filter (\<lambda>p. cvalue (get_cell g' p) \<noteq> cvalue (get_cell ?g1 p)) (remdups cs)))"
        proof -
          have "length (filter P xs) \<le> Suc (length (filter Q xs))"
            if "distinct xs" "\<And>x. x \<in> set xs \<Longrightarrow> x \<noteq> c \<Longrightarrow> P x \<Longrightarrow> Q x" for P Q and xs :: "pos list"
            using that
          proof (induction xs)
            case Nil
            then show ?case by simp
          next
            case (Cons x xs)
            show ?case
            proof (cases "x = c")
              case True
              with Cons.prems(1) have "c \<notin> set xs" by simp
              with Cons.prems(2) have "length (filter P xs) \<le> length (filter Q xs)"
                by (intro length_filter_imp) auto
              then show ?thesis by simp
            next
              case False
              with Cons show ?thesis by auto
            qed
          qed
          from this [of "remdups cs"] eq show ?thesis by simp
        qed
        with True show ?thesis by simp
      next
        case False
        then have "filter (\<lambda>p. cvalue (get_cell g' p) \<noteq> cvalue (get_cell g p)) (remdups cs)
            = filter (\<lambda>p. cvalue (get_cell g' p) \<noteq> cvalue (get_cell ?g1 p)) (remdups cs)"
          by (intro filter_cong) (auto simp: get_cell_set_value)
        with False show ?thesis by simp
      qed
      with ih3 \<open>\<not> r \<ge> m\<close> have 3: "int (length (filter (\<lambda>p. cvalue (get_cell g' p) \<noteq> cvalue (get_cell g p))
            (remdups (c # cs)))) \<le> max 0 (m - r)"
        by linarith
      from 1 2 3 show ?thesis by blast
    next
      case F: False
      with False res Cons.prems have "remove_loop td m g r cs = Inr g'"
        by (simp add: Let_def set_value_restore)
      note IH = Cons.IH [OF this]
      from IH have ih1: "g' = g \<or> (\<exists>result. solve (clone_grid g') td = Inr result \<and> solved result
                        \<and> has_unique_solution g')" by blast
      from IH have ih2: "cvalue (get_cell g' p) = cvalue (get_cell g p)
              \<or> (cvalue (get_cell g' p) = None \<and> p \<in> set cs)" for p by blast
      from IH have ih3: "int (length (filter (\<lambda>p. cvalue (get_cell g' p) \<noteq> cvalue (get_cell g p))
            (remdups cs))) \<le> max 0 (m - r)" by blast
      have "length (filter (\<lambda>p. cvalue (get_cell g' p) \<noteq> cvalue (get_cell g p)) (remdups (c # cs)))
          = length (filter (\<lambda>p. cvalue (get_cell g' p) \<noteq> cvalue (get_cell g p)) (remdups cs))"
      proof (cases "c \<in> set cs")
        case True
        then show ?thesis by simp
      next
        case False
        with ih2 [of c] have "cvalue (get_cell g' c) = cvalue (get_cell g c)" by blast
        with False show ?thesis by simp
      qed
      with ih3 have 3: "int (length (filter (\<lambda>p. cvalue (get_cell g' p) \<noteq> cvalue (get_cell g p))
            (remdups (c # cs)))) \<le> max 0 (m - r)" by simp
      have 2: "cvalue (get_cell g' p) = cvalue (get_cell g p)
              \<or> (cvalue (get_cell g' p) = None \<and> p \<in> set (c # cs))" for p
        using ih2 [of p] by auto
      from ih1 2 3 show ?thesis by blast
    qed
  qed
qed

lemma attempts_rate:
  "attempts iter n attempt cfg rs = Inr (Some (g, k)) \<Longrightarrow> rate g = Inr (cfg_difficulty cfg) \<and> k < attempt + n"
proof (induction n arbitrary: attempt rs)
  case 0
  then show ?case by simp
next
  case (Suc n)
  from Suc.prems Suc.IH [of "attempt + 1"] show ?case
    by (auto split: prod.splits option.splits sum.splits if_splits)
qed

text \<open>
  Claim C3. Whenever \<open>generate\<close> returns a board, \<open>rate\<close> of that board is the requested
  difficulty: a board is returned only from the branch in which the rating just
  computed equals the target, and every other board is dropped for the next attempt.
\<close>

theorem generate_returns_target_difficulty:
  "generate iter cfg rs = Inr (Some (g, k)) \<Longrightarrow> rate g = Inr (cfg_difficulty cfg)"
  unfolding generate_def by (drule attempts_rate) simp

theorem generate_returns_target_difficulty_witness:
  "\<exists>g k. generate (\<lambda>xs x. 0)
           \<lparr> cfg_rows = 1, cfg_cols = 1, cfg_difficulty = 1, cfg_removal_percentage = Finite 1 0,
             cfg_max_group_size = 5, cfg_min_group_size = 1 \<rparr> [] = Inr (Some (g, k))
         \<and> rate g = Inr 1"
proof -
  let ?cfg = "\<lparr> cfg_rows = 1, cfg_cols = 1, cfg_difficulty = 1, cfg_removal_percentage = Finite 1 0,
                cfg_max_group_size = 5, cfg_min_group_size = 1 \<rparr>"
  have "case generate (\<lambda>xs x. 0) ?cfg [] of Inr (Some (g, k)) \<Rightarrow> True | _ \<Rightarrow> False"
    by code_simp
  then obtain g k where r: "generate (\<lambda>xs x. 0) ?cfg [] = Inr (Some (g, k))"
    by (auto split: sum.splits option.splits)
  from generate_returns_target_difficulty [OF r] r show ?thesis by auto
qed

section \<open>\<open>Grid.clone\<close> on an explicit store\<close>

text \<open>
  Here the objects of the source are kept apart: a store is the list of the objects
  allocated so far, an address is an index into it, and a field that holds an object
  holds its address. A \<open>Grid\<close> has its dimensions, the list of its rows (each a list of
  cells), the list of its groups and the attribute \<open>solution\<close>; a \<open>Cell\<close> has its
  position, its value, its set of candidates (an object of its own) and its group id;
  a \<open>Group\<close> has its id, its size and the list of its cells. Allocation appends to the
  store. A read that fails in the source (an index out of range, an attribute that the
  object does not have) is \<open>None\<close>.
\<close>

type_synonym addr = nat

datatype obj =
    OGrid nat nat addr addr "addr option"
  | OList "addr list"
  | OCell nat nat "int option" addr int
  | OSet "int list"
  | OGroup int int addr

type_synonym heap = "obj list"

definition alloc :: "heap \<Rightarrow> obj \<Rightarrow> addr \<times> heap" where
  "alloc h ob = (length h, h @ [ob])"

definition lookup :: "heap \<Rightarrow> addr \<Rightarrow> obj option" where
  "lookup h a = (if a < length h then Some (h ! a) else None)"

definition index :: "'a list \<Rightarrow> nat \<Rightarrow> 'a option" where
  "index xs i = (if i < length xs then Some (xs ! i) else None)"

definition get_list :: "heap \<Rightarrow> addr \<Rightarrow> addr list option" where
  "get_list h a = (case lookup h a of Some (OList xs) \<Rightarrow> Some xs | _ \<Rightarrow> None)"

definition list_append :: "heap \<Rightarrow> addr \<Rightarrow> addr \<Rightarrow> heap option" where
  "list_append h a x = (case lookup h a of Some (OList xs) \<Rightarrow> Some (h[a := OList (xs @ [x])]) | _ \<Rightarrow> None)"

definition grid_cells :: "heap \<Rightarrow> addr \<Rightarrow> addr option" where
  "grid_cells h g = (case lookup h g of Some (OGrid nrows mcols cs gs sol) \<Rightarrow> Some cs | _ \<Rightarrow> None)"

definition grid_groups :: "heap \<Rightarrow> addr \<Rightarrow> addr option" where
  "grid_groups h g = (case lookup h g of Some (OGrid nrows mcols cs gs sol) \<Rightarrow> Some gs | _ \<Rightarrow> None)"

text \<open>\<open>g.cells[r][c]\<close>.\<close>

definition cell_at :: "heap \<Rightarrow> addr \<Rightarrow> nat \<Rightarrow> nat \<Rightarrow> addr option" where
  "cell_at h g r c =
     Option.bind (grid_cells h g) (\<lambda>cs.
     Option.bind (get_list h cs) (\<lambda>rws.
     Option.bind (index rws r) (\<lambda>rw.
     Option.bind (get_list h rw) (\<lambda>row. index row c))))"

text \<open>\<open>new_cell = Cell(old_cell.row, old_cell.col, old_cell.group_id, old_cell.value)\<close>,
  whose constructor makes an empty set, then \<open>new_cell.candidates = set(old_cell.candidates)\<close>.\<close>

definition new_cell :: "heap \<Rightarrow> addr \<Rightarrow> (addr \<times> heap) option" where
  "new_cell h old_cell =
     (case lookup h old_cell of
        Some (OCell row col val cand g_id) \<Rightarrow>
          (case lookup h cand of
             Some (OSet cs) \<Rightarrow>
               (let (s0, h1) = alloc h (OSet []);
                    (c, h2) = alloc h1 (OCell row col val s0 g_id);
                    (s, h3) = alloc h2 (OSet cs)
                in Some (c, h3[c := OCell row col val s g_id]))
           | _ \<Rightarrow> None)
      | _ \<Rightarrow> None)"

fun clone_row :: "addr \<Rightarrow> nat \<Rightarrow> addr \<Rightarrow> heap \<Rightarrow> nat list \<Rightarrow> heap option" where
  "clone_row self r row h [] = Some h"
| "clone_row self r row h (c # cs) =
     Option.bind (cell_at h self r c) (\<lambda>old_cell.
     Option.bind (new_cell h old_cell) (\<lambda>(nc, h1).
     Option.bind (list_append h1 row nc) (\<lambda>h2.
     clone_row self r row h2 cs)))"

fun clone_rows :: "addr \<Rightarrow> addr \<Rightarrow> nat \<Rightarrow> heap \<Rightarrow> nat list \<Rightarrow> heap option" where
  "clone_rows self new_grid mcols h [] = Some h"
| "clone_rows self new_grid mcols h (r # rs) =
     (let (row, h1) = alloc h (OList []) in
      Option.bind (clone_row self r row h1 [0..<mcols]) (\<lambda>h2.
      Option.bind (grid_cells h2 new_grid) (\<lambda>cl.
      Option.bind (list_append h2 cl row) (\<lambda>h3.
      clone_rows self new_grid mcols h3 rs))))"

fun clone_members :: "addr \<Rightarrow> addr \<Rightarrow> heap \<Rightarrow> addr list \<Rightarrow> heap option" where
  "clone_members new_grid members h [] = Some h"
| "clone_members new_grid members h (old # olds) =
     (case lookup h old of
        Some (OCell row col val cand g_id) \<Rightarrow>
          Option.bind (cell_at h new_grid row col) (\<lambda>target.
          Option.bind (list_append h members target) (\<lambda>h1.
          clone_members new_grid members h1 olds))
      | _ \<Rightarrow> None)"

fun clone_groups :: "addr \<Rightarrow> heap \<Rightarrow> addr list \<Rightarrow> heap option" where
  "clone_groups new_grid h [] = Some h"
| "clone_groups new_grid h (gr # grs) =
     (case lookup h gr of
        Some (OGroup g_id g_size g_cells) \<Rightarrow>
          (let (members, h1) = alloc h (OList []);
               (new_group, h2) = alloc h1 (OGroup g_id g_size members) in
           Option.bind (get_list h2 g_cells) (\<lambda>old_members.
           Option.bind (clone_members new_grid members h2 old_members) (\<lambda>h3.
           Option.bind (grid_groups h3 new_grid) (\<lambda>gl.
           Option.bind (list_append h3 gl new_group) (\<lambda>h4.
           clone_groups new_grid h4 grs)))))
      | _ \<Rightarrow> None)"

definition clone :: "heap \<Rightarrow> addr \<Rightarrow> (addr \<times> heap) option" where
  "clone h self =
     (case lookup h self of
        Some (OGrid nrows mcols cls grps sol) \<Rightarrow>
          (let (cl, h1) = alloc h (OList []);
               (gl, h2) = alloc h1 (OList []);
               (new_grid, h3) = alloc h2 (OGrid nrows mcols cl gl None) in
           Option.bind (clone_rows self new_grid mcols h3 [0..<nrows]) (\<lambda>h4.
           Option.bind (get_list h4 grps) (\<lambda>old_groups.
           Option.bind (clone_groups new_grid h4 old_groups) (\<lambda>h5.
           Some (new_grid, h5)))))
      | _ \<Rightarrow> None)"

text \<open>The addresses that an object holds, and the objects that can be reached from one.\<close>

fun refs :: "obj \<Rightarrow> addr list" where
  "refs (OGrid nrows mcols cs gs sol) = cs # gs # (case sol of None \<Rightarrow> [] | Some a \<Rightarrow> [a])"
| "refs (OList xs) = xs"
| "refs (OCell row col val cand g_id) = [cand]"
| "refs (OSet cs) = []"
| "refs (OGroup g_id g_size g_cells) = [g_cells]"

inductive_set reach :: "heap \<Rightarrow> addr \<Rightarrow> addr set" for h :: heap and root :: addr where
  root: "root \<in> reach h root"
| step: "a \<in> reach h root \<Longrightarrow> a < length h \<Longrightarrow> b \<in> set (refs (h ! a)) \<Longrightarrow> b \<in> reach h root"

subsection \<open>What \<open>clone\<close> allocates is closed and apart from the source\<close>

text \<open>\<open>fresh n h\<close>: every object at an address from \<open>n\<close> on holds only addresses from \<open>n\<close>
  on; \<open>ext n h h'\<close>: the store \<open>h'\<close> extends \<open>h\<close>, keeps every object below \<open>n\<close> as it is,
  and is fresh from \<open>n\<close> on.\<close>

definition fresh :: "nat \<Rightarrow> heap \<Rightarrow> bool" where
  "fresh n h \<longleftrightarrow> n \<le> length h
     \<and> (\<forall>a. n \<le> a \<and> a < length h \<longrightarrow> (\<forall>b \<in> set (refs (h ! a)). n \<le> b \<and> b < length h))"

definition ext :: "nat \<Rightarrow> heap \<Rightarrow> heap \<Rightarrow> bool" where
  "ext n h h' \<longleftrightarrow> fresh n h' \<and> length h \<le> length h' \<and> (\<forall>b < n. h' ! b = h ! b)"

lemma ext_refl: "fresh n h \<Longrightarrow> ext n h h"
  by (simp add: ext_def)

lemma ext_trans:
  assumes "ext n h h'" "ext n h' h''"
  shows "ext n h h''"
proof -
  from assms have "fresh n h''" "length h \<le> length h''" by (simp_all add: ext_def)
  moreover have "h'' ! b = h ! b" if "b < n" for b
    using assms that by (simp add: ext_def)
  ultimately show ?thesis by (simp add: ext_def)
qed

lemma ext_fresh: "ext n h h' \<Longrightarrow> fresh n h'"
  by (simp add: ext_def)

lemma ext_length: "ext n h h' \<Longrightarrow> a < length h \<Longrightarrow> a < length h'"
  by (simp add: ext_def)

lemma freshD: "fresh n h \<Longrightarrow> n \<le> a \<Longrightarrow> a < length h \<Longrightarrow> b \<in> set (refs (h ! a)) \<Longrightarrow> n \<le> b \<and> b < length h"
  unfolding fresh_def by blast

lemma lookupD: "lookup h a = Some ob \<Longrightarrow> a < length h \<and> h ! a = ob"
  by (auto simp: lookup_def split: if_splits)

lemma freshI:
  assumes "n \<le> length h"
    and "\<And>a b. n \<le> a \<Longrightarrow> a < length h \<Longrightarrow> b \<in> set (refs (h ! a)) \<Longrightarrow> n \<le> b \<and> b < length h"
  shows "fresh n h"
  unfolding fresh_def using assms by blast

lemma extI:
  assumes "fresh n h'" "length h \<le> length h'" "\<And>b. b < n \<Longrightarrow> h' ! b = h ! b"
  shows "ext n h h'"
  unfolding ext_def using assms by blast

lemma fresh_le: "fresh n h \<Longrightarrow> n \<le> length h"
  by (simp add: fresh_def)

lemma ext_alloc:
  assumes "fresh n h" "\<And>b. b \<in> set (refs ob) \<Longrightarrow> n \<le> b \<and> b \<le> length h"
  shows "ext n h (h @ [ob])"
proof (rule extI)
  note n = fresh_le [OF assms(1)]
  show "fresh n (h @ [ob])"
  proof (rule freshI)
    show "n \<le> length (h @ [ob])" using n by simp
  next
    fix a b assume a: "n \<le> a" "a < length (h @ [ob])" "b \<in> set (refs ((h @ [ob]) ! a))"
    show "n \<le> b \<and> b < length (h @ [ob])"
    proof (cases "a < length h")
      case True
      with a(3) have "b \<in> set (refs (h ! a))" by (simp add: nth_append)
      from freshD [OF assms(1) a(1) True this] show ?thesis by simp
    next
      case False
      with a(2) have "a = length h" by simp
      with a(3) have "b \<in> set (refs ob)" by simp
      from assms(2) [OF this] show ?thesis by simp
    qed
  qed
  show "length h \<le> length (h @ [ob])" by simp
  fix b assume "b < n"
  with n show "(h @ [ob]) ! b = h ! b" by (simp add: nth_append)
qed

lemma ext_update:
  assumes "fresh n h" "n \<le> a" "\<And>b. b \<in> set (refs ob) \<Longrightarrow> n \<le> b \<and> b < length h"
  shows "ext n h (h[a := ob])"
proof (rule extI)
  note n = fresh_le [OF assms(1)]
  show "fresh n (h[a := ob])"
  proof (rule freshI)
    show "n \<le> length (h[a := ob])" using n by simp
  next
    fix a' b assume a: "n \<le> a'" "a' < length (h[a := ob])" "b \<in> set (refs (h[a := ob] ! a'))"
    show "n \<le> b \<and> b < length (h[a := ob])"
    proof (cases "a' = a")
      case True
      with a(2,3) have "b \<in> set (refs ob)" by simp
      from assms(3) [OF this] show ?thesis by simp
    next
      case False
      with a(3) have "b \<in> set (refs (h ! a'))" by simp
      from freshD [OF assms(1) a(1) _ this] a(2) show ?thesis by simp
    qed
  qed
  show "length h \<le> length (h[a := ob])" by simp
  fix b assume "b < n"
  with assms(2) show "h[a := ob] ! b = h ! b" by simp
qed

lemma ext_list_append:
  assumes "fresh n h" "n \<le> a" "n \<le> x" "x < length h" "list_append h a x = Some h'"
  shows "ext n h h'" "length h' = length h"
proof -
  from assms(5) obtain xs where l: "lookup h a = Some (OList xs)" and h': "h' = h[a := OList (xs @ [x])]"
    by (auto simp: list_append_def split: option.splits obj.splits)
  from lookupD [OF l] have a: "a < length h" "h ! a = OList xs" by simp_all
  have "n \<le> b \<and> b < length h" if "b \<in> set (refs (OList (xs @ [x])))" for b
    using that freshD [OF assms(1,2) a(1), of b] a(2) assms(3,4) by auto
  with assms(1,2) show "ext n h h'" unfolding h' by (intro ext_update)
  show "length h' = length h" by (simp add: h')
qed

lemma cell_at_fresh:
  assumes "fresh n h" "n \<le> g" "cell_at h g r c = Some x"
  shows "n \<le> x \<and> x < length h"
proof -
  from assms(3) obtain cs rws rw row where
    1: "grid_cells h g = Some cs" and 2: "get_list h cs = Some rws" and 3: "index rws r = Some rw"
    and 4: "get_list h rw = Some row" and 5: "index row c = Some x"
    by (auto simp: cell_at_def Option.bind_eq_Some_conv)
  from 1 have g: "g < length h" "cs \<in> set (refs (h ! g))"
    by (auto simp: grid_cells_def dest!: lookupD split: option.splits obj.splits)
  from freshD [OF assms(1,2) g] have cs: "n \<le> cs" "cs < length h" by simp_all
  from 2 have "h ! cs = OList rws"
    by (auto simp: get_list_def dest!: lookupD split: option.splits obj.splits)
  with 3 have "rw \<in> set (refs (h ! cs))" by (auto simp: index_def split: if_splits)
  from freshD [OF assms(1) cs this] have rw: "n \<le> rw" "rw < length h" by simp_all
  from 4 have "h ! rw = OList row"
    by (auto simp: get_list_def dest!: lookupD split: option.splits obj.splits)
  with 5 have "x \<in> set (refs (h ! rw))" by (auto simp: index_def split: if_splits)
  from freshD [OF assms(1) rw this] show ?thesis .
qed

lemma new_cell_Some:
  assumes "new_cell h old = Some (nc, h')"
  obtains row col val g_id cs where
    "(((h @ [OSet []]) @ [OCell row col val (length h) g_id]) @ [OSet cs])
              [length (h @ [OSet []]) :=
                 OCell row col val (length ((h @ [OSet []]) @ [OCell row col val (length h) g_id])) g_id] = h'"
    "length (h @ [OSet []]) = nc"
proof (cases "lookup h old")
  case None
  with assms show ?thesis by (simp add: new_cell_def)
next
  case (Some ob)
  show ?thesis
  proof (cases ob)
    case (OCell row col val cand g_id)
    show ?thesis
    proof (cases "lookup h cand")
      case None
      with assms Some OCell show ?thesis by (simp add: new_cell_def)
    next
      case s: (Some ob')
      show ?thesis
      proof (cases ob')
        case (OSet cs)
        from assms have "Some (length (h @ [OSet []]),
            (((h @ [OSet []]) @ [OCell row col val (length h) g_id]) @ [OSet cs])
              [length (h @ [OSet []]) :=
                 OCell row col val (length ((h @ [OSet []]) @ [OCell row col val (length h) g_id])) g_id])
            = Some (nc, h')"
          by (simp only: new_cell_def Some OCell s OSet alloc_def option.case obj.case prod.case Let_def)
        then show ?thesis using that [of row col val g_id cs] by blast
      qed (use assms Some OCell s in \<open>simp_all add: new_cell_def\<close>)
    qed
  qed (use assms Some in \<open>simp_all add: new_cell_def\<close>)
qed

lemma new_cell_ext:
  assumes "fresh n h" "new_cell h old = Some (nc, h')"
  shows "ext n h h'" "n \<le> nc" "nc < length h'"
proof -
  from assms(2) obtain row col val g_id cs where
    h': "(((h @ [OSet []]) @ [OCell row col val (length h) g_id]) @ [OSet cs])
              [length (h @ [OSet []]) :=
                 OCell row col val (length ((h @ [OSet []]) @ [OCell row col val (length h) g_id])) g_id] = h'"
    and nc: "length (h @ [OSet []]) = nc"
    by (rule new_cell_Some)
  from assms(1) have n: "n \<le> length h" by (simp add: fresh_def)
  define h1 where "h1 = h @ [OSet []]"
  define h2 where "h2 = h1 @ [OCell row col val (length h) g_id]"
  define h3 where "h3 = h2 @ [OSet cs]"
  have len: "length h1 = Suc (length h)" "length h2 = Suc (Suc (length h))"
    "length h3 = Suc (Suc (Suc (length h)))"
    by (simp_all add: h1_def h2_def h3_def)
  have 1: "ext n h h1" unfolding h1_def using assms(1) by (intro ext_alloc) simp_all
  have 2: "ext n h1 h2" unfolding h2_def using ext_fresh [OF 1] n
    by (intro ext_alloc) (simp_all add: len)
  have 3: "ext n h2 h3" unfolding h3_def using ext_fresh [OF 2] by (intro ext_alloc) simp_all
  have h'': "h' = h3[length h1 := OCell row col val (length h2) g_id]"
    unfolding h' [symmetric] h3_def h2_def h1_def ..
  have 4: "ext n h3 h'"
    unfolding h'' using ext_fresh [OF 3] n
    by (intro ext_update) (simp_all add: len)
  from 1 2 3 4 show "ext n h h'" by (blast intro: ext_trans)
  from n show "n \<le> nc" unfolding nc [symmetric] by simp
  show "nc < length h'" unfolding h'' nc [symmetric] by (simp add: len)
qed

lemma clone_row_ext:
  assumes "fresh n h" "n \<le> row" "row < length h" "clone_row self r row h cs = Some h'"
  shows "ext n h h'"
  using assms
proof (induction cs arbitrary: h)
  case Nil
  then show ?case by (simp add: ext_refl)
next
  case (Cons c cs)
  from Cons.prems(4) obtain old nc h1 h2 where
    1: "new_cell h old = Some (nc, h1)" and 2: "list_append h1 row nc = Some h2"
    and 3: "clone_row self r row h2 cs = Some h'"
    by (auto simp: Option.bind_eq_Some_conv)
  note e1 = new_cell_ext [OF Cons.prems(1) 1]
  note e2 = ext_list_append [OF ext_fresh [OF e1(1)] Cons.prems(2) e1(2,3) 2]
  from Cons.prems(3) e1(1) e2 have "row < length h2" by (simp add: ext_def)
  from Cons.IH [OF ext_fresh [OF e2(1)] Cons.prems(2) this 3] e1(1) e2(1) show ?case
    by (blast intro: ext_trans)
qed

lemma grid_field_fresh:
  assumes "fresh n h" "n \<le> g" "grid_cells h g = Some a \<or> grid_groups h g = Some a"
  shows "n \<le> a \<and> a < length h"
proof -
  from assms(3) have "g < length h" "a \<in> set (refs (h ! g))"
    by (auto simp: grid_cells_def grid_groups_def dest!: lookupD split: option.splits obj.splits)
  from freshD [OF assms(1,2) this] show ?thesis .
qed

lemma clone_rows_ext:
  assumes "fresh n h" "n \<le> new_grid" "clone_rows self new_grid mcols h rs = Some h'"
  shows "ext n h h'"
  using assms
proof (induction rs arbitrary: h)
  case Nil
  then show ?case by (simp add: ext_refl)
next
  case (Cons r rs)
  let ?h1 = "h @ [OList []]"
  from Cons.prems(3) obtain h2 cl h3 where
    1: "clone_row self r (length h) ?h1 [0..<mcols] = Some h2"
    and 2: "grid_cells h2 new_grid = Some cl" and 3: "list_append h2 cl (length h) = Some h3"
    and 4: "clone_rows self new_grid mcols h3 rs = Some h'"
    by (auto simp: alloc_def Option.bind_eq_Some_conv)
  from Cons.prems(1) have n: "n \<le> length h" by (simp add: fresh_def)
  have e0: "ext n h ?h1" using Cons.prems(1) by (intro ext_alloc) simp_all
  have e1: "ext n ?h1 h2" using clone_row_ext [OF ext_fresh [OF e0] n _ 1] by simp
  from grid_field_fresh [OF ext_fresh [OF e1] Cons.prems(2)] 2 have cl: "n \<le> cl" by blast
  from e1 have "length h < length h2" by (simp add: ext_def)
  note e2 = ext_list_append [OF ext_fresh [OF e1] cl n this 3]
  from Cons.IH [OF ext_fresh [OF e2(1)] Cons.prems(2) 4] e0 e1 e2(1) show ?case
    by (blast intro: ext_trans)
qed

lemma clone_members_ext:
  assumes "fresh n h" "n \<le> new_grid" "n \<le> members" "clone_members new_grid members h olds = Some h'"
  shows "ext n h h'"
  using assms
proof (induction olds arbitrary: h)
  case Nil
  then show ?case by (simp add: ext_refl)
next
  case (Cons old olds)
  from Cons.prems(4) obtain row col target h1 where
    1: "cell_at h new_grid row col = Some target" and 2: "list_append h members target = Some h1"
    and 3: "clone_members new_grid members h1 olds = Some h'"
    by (auto simp: Option.bind_eq_Some_conv split: option.splits obj.splits)
  from cell_at_fresh [OF Cons.prems(1,2) 1] have t: "n \<le> target" "target < length h" by simp_all
  note e1 = ext_list_append [OF Cons.prems(1,3) t 2]
  from Cons.IH [OF ext_fresh [OF e1(1)] Cons.prems(2,3) 3] e1(1) show ?case
    by (blast intro: ext_trans)
qed

lemma clone_groups_ext:
  assumes "fresh n h" "n \<le> new_grid" "clone_groups new_grid h grs = Some h'"
  shows "ext n h h'"
  using assms
proof (induction grs arbitrary: h)
  case Nil
  then show ?case by (simp add: ext_refl)
next
  case (Cons gr grs)
  from Cons.prems(3) obtain g_id g_size old_members h3 gl h4 where
    1: "clone_members new_grid (length h) (h @ [OList [], OGroup g_id g_size (length h)]) old_members = Some h3"
    and 2: "grid_groups h3 new_grid = Some gl" and 3: "list_append h3 gl (Suc (length h)) = Some h4"
    and 4: "clone_groups new_grid h4 grs = Some h'"
    by (auto simp: alloc_def Option.bind_eq_Some_conv split: option.splits obj.splits)
  from Cons.prems(1) have n: "n \<le> length h" by (simp add: fresh_def)
  have e0: "ext n h (h @ [OList []])" using Cons.prems(1) by (intro ext_alloc) simp_all
  have e0': "ext n (h @ [OList []]) (h @ [OList []] @ [OGroup g_id g_size (length h)])"
    using ext_alloc [OF ext_fresh [OF e0], of "OGroup g_id g_size (length h)"] n by simp
  then have e0'': "ext n (h @ [OList []]) (h @ [OList [], OGroup g_id g_size (length h)])" by simp
  note e1 = clone_members_ext [OF ext_fresh [OF e0''] Cons.prems(2) n 1]
  from grid_field_fresh [OF ext_fresh [OF e1] Cons.prems(2)] 2 have gl: "n \<le> gl" by blast
  from e1 have "Suc (length h) < length h3" by (simp add: ext_def)
  moreover from n have "n \<le> Suc (length h)" by simp
  ultimately have e2: "ext n h3 h4" using ext_list_append(1) [OF ext_fresh [OF e1] gl _ _ 3] by blast
  from Cons.IH [OF ext_fresh [OF e2] Cons.prems(2) 4] e0 e0'' e1 e2 show ?case
    by (blast intro: ext_trans)
qed

lemma clone_Some:
  assumes "clone h self = Some (new_grid, h')"
  obtains nrows mcols h4 old_groups where
    "new_grid = Suc (Suc (length h))"
    "clone_rows self new_grid mcols
       (h @ [OList [], OList [], OGrid nrows mcols (length h) (Suc (length h)) None]) [0..<nrows] = Some h4"
    "clone_groups new_grid h4 old_groups = Some h'"
proof (cases "lookup h self")
  case None
  with assms show ?thesis by (simp add: clone_def)
next
  case (Some ob)
  show ?thesis
  proof (cases ob)
    case (OGrid nrows mcols cls grps sol)
    with assms Some that [of mcols nrows] show ?thesis
      by (auto simp: clone_def alloc_def Option.bind_eq_Some_conv)
  qed (use assms Some in \<open>simp_all add: clone_def\<close>)
qed

lemma clone_ext:
  assumes "clone h self = Some (new_grid, h')"
  shows "ext (length h) h h'" "length h \<le> new_grid" "new_grid < length h'"
proof -
  let ?n = "length h"
  from assms obtain nrows mcols h4 old_groups where
    ng: "new_grid = Suc (Suc ?n)"
    and 1: "clone_rows self new_grid mcols (h @ [OList [], OList [], OGrid nrows mcols ?n (Suc ?n) None])
              [0..<nrows] = Some h4"
    and 2: "clone_groups new_grid h4 old_groups = Some h'"
    by (rule clone_Some)
  define h1 where "h1 = h @ [OList []]"
  define h2 where "h2 = h1 @ [OList []]"
  define h3 where "h3 = h2 @ [OGrid nrows mcols ?n (Suc ?n) None]"
  have f: "fresh ?n h" by (simp add: fresh_def)
  have e0: "ext ?n h h1" unfolding h1_def using f by (intro ext_alloc) simp_all
  have e1: "ext ?n h1 h2" unfolding h2_def using ext_fresh [OF e0] by (intro ext_alloc) simp_all
  have e2: "ext ?n h2 h3" unfolding h3_def using ext_fresh [OF e1]
    by (intro ext_alloc) (auto simp: h2_def h1_def)
  have h3: "h @ [OList [], OList [], OGrid nrows mcols ?n (Suc ?n) None] = h3"
    by (simp add: h3_def h2_def h1_def)
  from e0 e1 e2 have e3: "ext ?n h h3" by (blast intro: ext_trans)
  have g: "?n \<le> new_grid" by (simp add: ng)
  note e4 = clone_rows_ext [OF ext_fresh [OF e3] g 1 [unfolded h3]]
  note e5 = clone_groups_ext [OF ext_fresh [OF e4] g 2]
  from e3 e4 e5 show "ext ?n h h'" by (blast intro: ext_trans)
  show "?n \<le> new_grid" by (rule g)
  have "length h3 = Suc (Suc (Suc ?n))" by (simp add: h3_def h2_def h1_def)
  with e4 e5 show "new_grid < length h'" by (simp add: ext_def ng)
qed

lemma reach_fresh:
  assumes "fresh n h" "n \<le> root" "root < length h" "a \<in> reach h root"
  shows "n \<le> a \<and> a < length h"
  using assms(4)
proof (induction rule: reach.induct)
  case root
  from assms(2,3) show ?case by simp
next
  case (step a b)
  with freshD [OF assms(1)] show ?case by blast
qed

text \<open>
  Claim C7. \<open>clone\<close> leaves every object of the store it starts from as it is, and the
  grid it returns is built from newly allocated objects only: every object that can be
  reached from the clone (the grid, its lists of rows and of groups, the rows, the cells,
  their candidate sets, the groups, their member lists and the cells these hold) lies at
  an address that did not exist before. So an assignment
  to any field of any object of the clone leaves every object that existed before the
  call, hence every field of the source grid, unchanged.
\<close>

theorem clone_independent:
  assumes "clone h self = Some (new_grid, h')"
  shows "length h \<le> length h'
     \<and> (\<forall>b < length h. h' ! b = h ! b)
     \<and> reach h' new_grid \<subseteq> {length h ..< length h'}
     \<and> (\<forall>a \<in> reach h' new_grid. \<forall>ob. \<forall>b < length h. (h'[a := ob]) ! b = h ! b)"
proof -
  note e = clone_ext [OF assms]
  from e(1) have len: "length h \<le> length h'" and keep: "\<And>b. b < length h \<Longrightarrow> h' ! b = h ! b"
    by (simp_all add: ext_def)
  have sub: "length h \<le> a \<and> a < length h'" if "a \<in> reach h' new_grid" for a
    using reach_fresh [OF ext_fresh [OF e(1)] e(2,3) that] .
  have "(h'[a := ob]) ! b = h ! b" if "a \<in> reach h' new_grid" "b < length h" for a ob b
    using sub [OF that(1)] that(2) keep [OF that(2)] by simp
  with len keep sub show ?thesis by auto
qed

theorem clone_independent_witness:
  "\<exists>h'. clone [OGrid 1 2 1 7 None, OList [2], OList [3, 5], OCell 0 0 (Some 1) 4 0, OSet [],
                OCell 0 1 None 6 0, OSet [1, 2], OList [8], OGroup 0 2 9, OList [3, 5]] 0
          = Some (12, h')
       \<and> h' ! 15 = OCell 0 0 (Some 1) 16 0
       \<and> 15 \<in> reach h' 12
       \<and> (h'[15 := OCell 0 0 (Some 2) 16 0]) ! 3 = OCell 0 0 (Some 1) 4 0"
proof -
  let ?h = "[OGrid 1 2 1 7 None, OList [2], OList [3, 5], OCell 0 0 (Some 1) 4 0, OSet [],
             OCell 0 1 None 6 0, OSet [1, 2], OList [8], OGroup 0 2 9, OList [3, 5]]"
  let ?h' = "?h @ [OList [13], OList [21], OGrid 1 2 10 11 None,
    OList [15, 18], OSet [], OCell 0 0 (Some 1) 16 0, OSet [], OSet [],
    OCell 0 1 None 19 0, OSet [1, 2], OList [15, 18], OGroup 0 2 20]"
  have c: "clone ?h 0 = Some (12, ?h')" by code_simp
  have "12 \<in> reach ?h' 12" by (rule reach.root)
  then have "10 \<in> reach ?h' 12" by (rule reach.step) simp_all
  then have "13 \<in> reach ?h' 12" by (rule reach.step) simp_all
  then have r: "15 \<in> reach ?h' 12" by (rule reach.step) simp_all
  from clone_independent [OF c] r
  have "(?h'[15 := OCell 0 0 (Some 2) 16 0]) ! 3 = ?h ! 3" by simp
  moreover have "?h' ! 15 = OCell 0 0 (Some 1) 16 0" by simp
  ultimately show ?thesis using c r by (intro exI [of _ ?h']) simp
qed

section \<open>The deductions are sound\<close>

text \<open>
  \<open>solves g sv\<close>: the assignment \<open>sv\<close> of a value to every position is a solution of
  the grid \<open>g\<close>: on each group it is a bijection onto \<open>1..size\<close>, adjacent cells differ,
  and it agrees with the values already on the grid. \<open>sound sv g\<close>: in the state \<open>g\<close> of
  the solver no deduction has excluded \<open>sv\<close>: every empty cell still has its value under
  \<open>sv\<close> among its candidates; moreover the candidates of an empty cell lie in
  \<open>1..size\<close> and contain no value of a filled cell of the same group.
\<close>

definition solves :: "grid \<Rightarrow> (pos \<Rightarrow> int) \<Rightarrow> bool" where
  "solves g sv \<longleftrightarrow>
     (\<forall>gr \<in> set (groups g). inj_on sv (set (gcells gr)) \<and> sv ` set (gcells gr) = {1..gsize gr})
     \<and> (\<forall>p q. in_grid g p \<and> in_grid g q \<and> adjacent p q \<longrightarrow> sv p \<noteq> sv q)
     \<and> (\<forall>p v. in_grid g p \<and> cvalue (get_cell g p) = Some v \<longrightarrow> sv p = v)"

definition sound :: "(pos \<Rightarrow> int) \<Rightarrow> grid \<Rightarrow> bool" where
  "sound sv g \<longleftrightarrow>
     wf_grid g \<and> solves g sv
     \<and> (\<forall>p. in_grid g p \<and> cvalue (get_cell g p) = None \<longrightarrow> sv p \<in> set (candidates (get_cell g p)))
     \<and> (\<forall>gr \<in> set (groups g). \<forall>q \<in> set (gcells gr). \<forall>q' \<in> set (gcells gr). \<forall>v.
           q \<noteq> q' \<and> cvalue (get_cell g q) = None \<and> cvalue (get_cell g q') = Some v
           \<longrightarrow> v \<notin> set (candidates (get_cell g q)))
     \<and> (\<forall>gr \<in> set (groups g). \<forall>q \<in> set (gcells gr). cvalue (get_cell g q) = None
           \<longrightarrow> set (candidates (get_cell g q)) \<subseteq> {1..gsize gr})"

text \<open>Two grids with the same cells apart from the candidates.\<close>

definition same_board :: "grid \<Rightarrow> grid \<Rightarrow> bool" where
  "same_board g g' \<longleftrightarrow>
     rows g' = rows g \<and> cols g' = cols g \<and> groups g' = groups g
     \<and> (\<forall>p. cvalue (get_cell g' p) = cvalue (get_cell g p)
            \<and> group_id (get_cell g' p) = group_id (get_cell g p))"

text \<open>A later state of the solver: no cell has lost its value, and the empty cells
  have no candidate that they had not before.\<close>

definition narrows :: "grid \<Rightarrow> grid \<Rightarrow> bool" where
  "narrows g g' \<longleftrightarrow>
     rows g' = rows g \<and> cols g' = cols g \<and> groups g' = groups g
     \<and> (\<forall>q. cvalue (get_cell g' q) = None \<longrightarrow>
            cvalue (get_cell g q) = None
            \<and> set (candidates (get_cell g' q)) \<subseteq> set (candidates (get_cell g q)))"

text \<open>The invariant of the eliminations of levels 2 and 3, which change candidates only:
  the state is sound and has the board \<open>g0\<close>.\<close>

definition keeps :: "(pos \<Rightarrow> int) \<Rightarrow> grid \<Rightarrow> solver \<times> bool \<Rightarrow> bool" where
  "keeps sv g0 sp \<longleftrightarrow> sound sv (sgrid (fst sp)) \<and> same_board g0 (sgrid (fst sp))"

lemma solvesD:
  assumes "solves g sv"
  shows "gr \<in> set (groups g) \<Longrightarrow> inj_on sv (set (gcells gr))"
    and "gr \<in> set (groups g) \<Longrightarrow> sv ` set (gcells gr) = {1..gsize gr}"
    and "in_grid g p \<Longrightarrow> in_grid g q \<Longrightarrow> adjacent p q \<Longrightarrow> sv p \<noteq> sv q"
    and "in_grid g p \<Longrightarrow> cvalue (get_cell g p) = Some v \<Longrightarrow> sv p = v"
  using assms unfolding solves_def by blast+

lemma soundD:
  assumes "sound sv g"
  shows "wf_grid g" and "solves g sv"
    and "in_grid g p \<Longrightarrow> cvalue (get_cell g p) = None \<Longrightarrow> sv p \<in> set (candidates (get_cell g p))"
    and "gr \<in> set (groups g) \<Longrightarrow> q \<in> set (gcells gr) \<Longrightarrow> q' \<in> set (gcells gr) \<Longrightarrow> q \<noteq> q'
          \<Longrightarrow> cvalue (get_cell g q) = None \<Longrightarrow> cvalue (get_cell g q') = Some v
          \<Longrightarrow> v \<notin> set (candidates (get_cell g q))"
    and "gr \<in> set (groups g) \<Longrightarrow> q \<in> set (gcells gr) \<Longrightarrow> cvalue (get_cell g q) = None
          \<Longrightarrow> set (candidates (get_cell g q)) \<subseteq> {1..gsize gr}"
proof -
  from assms have 1: "wf_grid g" and 2: "solves g sv"
    and 3: "\<forall>p. in_grid g p \<and> cvalue (get_cell g p) = None \<longrightarrow> sv p \<in> set (candidates (get_cell g p))"
    and 4: "\<forall>gr \<in> set (groups g). \<forall>q \<in> set (gcells gr). \<forall>q' \<in> set (gcells gr). \<forall>v.
           q \<noteq> q' \<and> cvalue (get_cell g q) = None \<and> cvalue (get_cell g q') = Some v
           \<longrightarrow> v \<notin> set (candidates (get_cell g q))"
    and 5: "\<forall>gr \<in> set (groups g). \<forall>q \<in> set (gcells gr). cvalue (get_cell g q) = None
           \<longrightarrow> set (candidates (get_cell g q)) \<subseteq> {1..gsize gr}"
    unfolding sound_def by blast+
  show "wf_grid g" by (rule 1)
  show "solves g sv" by (rule 2)
  show "in_grid g p \<Longrightarrow> cvalue (get_cell g p) = None \<Longrightarrow> sv p \<in> set (candidates (get_cell g p))"
    using 3 by blast
  show "gr \<in> set (groups g) \<Longrightarrow> q \<in> set (gcells gr) \<Longrightarrow> q' \<in> set (gcells gr) \<Longrightarrow> q \<noteq> q'
          \<Longrightarrow> cvalue (get_cell g q) = None \<Longrightarrow> cvalue (get_cell g q') = Some v
          \<Longrightarrow> v \<notin> set (candidates (get_cell g q))"
    using 4 by blast
  show "gr \<in> set (groups g) \<Longrightarrow> q \<in> set (gcells gr) \<Longrightarrow> cvalue (get_cell g q) = None
          \<Longrightarrow> set (candidates (get_cell g q)) \<subseteq> {1..gsize gr}"
    using 5 by blast
qed

lemma soundI:
  assumes "wf_grid g" "solves g sv"
    and "\<And>p. in_grid g p \<Longrightarrow> cvalue (get_cell g p) = None \<Longrightarrow> sv p \<in> set (candidates (get_cell g p))"
    and "\<And>gr q q' v. gr \<in> set (groups g) \<Longrightarrow> q \<in> set (gcells gr) \<Longrightarrow> q' \<in> set (gcells gr) \<Longrightarrow> q \<noteq> q'
          \<Longrightarrow> cvalue (get_cell g q) = None \<Longrightarrow> cvalue (get_cell g q') = Some v
          \<Longrightarrow> v \<notin> set (candidates (get_cell g q))"
    and "\<And>gr q. gr \<in> set (groups g) \<Longrightarrow> q \<in> set (gcells gr) \<Longrightarrow> cvalue (get_cell g q) = None
          \<Longrightarrow> set (candidates (get_cell g q)) \<subseteq> {1..gsize gr}"
  shows "sound sv g"
  unfolding sound_def using assms by blast

lemma same_boardD:
  assumes "same_board g g'"
  shows "rows g' = rows g" "cols g' = cols g" "groups g' = groups g"
    "cvalue (get_cell g' p) = cvalue (get_cell g p)"
    "group_id (get_cell g' p) = group_id (get_cell g p)"
  using assms unfolding same_board_def by blast+

lemma same_board_in_grid: "same_board g g' \<Longrightarrow> in_grid g' p = in_grid g p"
  unfolding same_board_def in_grid_def by simp

lemma same_board_refl: "same_board g g"
  by (simp add: same_board_def)

lemma same_board_trans: "same_board g g' \<Longrightarrow> same_board g' g'' \<Longrightarrow> same_board g g''"
  unfolding same_board_def by simp

lemma same_board_wf:
  assumes "same_board g g'"
  shows "wf_grid g' = wf_grid g"
  unfolding wf_grid_def
  by (simp add: same_boardD(1-3) [OF assms] same_boardD(5) [OF assms] in_grid_def)

lemma same_board_solves:
  assumes "same_board g g'"
  shows "solves g' sv = solves g sv"
  unfolding solves_def
  by (simp only: same_boardD(3) [OF assms] same_boardD(4) [OF assms] same_board_in_grid [OF assms])

lemma same_board_get_group: "same_board g g' \<Longrightarrow> get_group g' p = get_group g p"
  by (simp add: get_group_def same_boardD)

lemma same_board_neighbors: "same_board g g' \<Longrightarrow> neighbors g' p = neighbors g p"
  by (simp add: neighbors_def out_of_bounds_def same_boardD)

lemma same_board_upd:
  assumes "\<And>c. cvalue (f c) = cvalue c" "\<And>c. group_id (f c) = group_id c"
  shows "same_board g (upd_cell g q f)"
  by (simp add: same_board_def get_cell_upd assms)

text \<open>A state that has the same board and smaller candidate sets which still contain
  the solution is sound again.\<close>

lemma sound_shrink:
  assumes s: "sound sv g" and b: "same_board g g'"
    and sub: "\<And>p. set (candidates (get_cell g' p)) \<subseteq> set (candidates (get_cell g p))"
    and keep: "\<And>p. in_grid g p \<Longrightarrow> cvalue (get_cell g p) = None \<Longrightarrow> sv p \<in> set (candidates (get_cell g' p))"
  shows "sound sv g'"
proof (rule soundI)
  note bd = same_boardD [OF b] same_board_in_grid [OF b]
  show "wf_grid g'" using soundD(1) [OF s] by (simp add: same_board_wf [OF b])
  show "solves g' sv" using soundD(2) [OF s] by (simp add: same_board_solves [OF b])
  show "sv p \<in> set (candidates (get_cell g' p))" if "in_grid g' p" "cvalue (get_cell g' p) = None" for p
    using that keep [of p] by (simp add: bd)
  show "v \<notin> set (candidates (get_cell g' q))"
    if "gr \<in> set (groups g')" "q \<in> set (gcells gr)" "q' \<in> set (gcells gr)" "q \<noteq> q'"
      "cvalue (get_cell g' q) = None" "cvalue (get_cell g' q') = Some v" for gr q q' v
    using soundD(4) [OF s, of gr q q' v] that sub [of q] by (auto simp: bd)
  show "set (candidates (get_cell g' q)) \<subseteq> {1..gsize gr}"
    if "gr \<in> set (groups g')" "q \<in> set (gcells gr)" "cvalue (get_cell g' q) = None" for gr q
    using soundD(5) [OF s, of gr q] that sub [of q] by (auto simp: bd)
qed

lemma sound_upd_candidates:
  assumes "sound sv g" "set cs \<subseteq> set (candidates (get_cell g q))"
    and "in_grid g q \<Longrightarrow> cvalue (get_cell g q) = None \<Longrightarrow> sv q \<in> set cs"
  shows "sound sv (upd_cell g q (\<lambda>c. c\<lparr>candidates := cs\<rparr>))"
proof (rule sound_shrink [OF assms(1)])
  show "same_board g (upd_cell g q (\<lambda>c. c\<lparr>candidates := cs\<rparr>))"
    by (rule same_board_upd) simp_all
  show "set (candidates (get_cell (upd_cell g q (\<lambda>c. c\<lparr>candidates := cs\<rparr>)) p))
      \<subseteq> set (candidates (get_cell g p))" for p
    using assms(2) by (simp add: get_cell_upd)
  show "sv p \<in> set (candidates (get_cell (upd_cell g q (\<lambda>c. c\<lparr>candidates := cs\<rparr>)) p))"
    if "in_grid g p" "cvalue (get_cell g p) = None" for p
    using that assms(3) soundD(3) [OF assms(1) that] by (auto simp: get_cell_upd)
qed

text \<open>\<open>_init_candidates\<close> establishes the invariant.\<close>

lemma init_cell_board: "same_board g (init_cell g p)"
  unfolding init_cell_def
  by (auto split: option.splits intro: same_board_refl same_board_upd)

lemma init_fold_board: "same_board g (foldl init_cell g ps)"
proof (induction ps rule: rev_induct)
  case Nil
  show ?case by (simp add: same_board_refl)
next
  case (snoc p ps)
  show ?case
    unfolding foldl_append foldl_Cons foldl_Nil
    by (rule same_board_trans [OF snoc init_cell_board])
qed

lemma same_board_peers: "same_board g g' \<Longrightarrow> get_group_peers g' p = get_group_peers g p"
  by (simp add: get_group_peers_def same_board_get_group)

lemma init_cell_other: "q \<noteq> p \<Longrightarrow> get_cell (init_cell g p) q = get_cell g q"
  unfolding init_cell_def by (auto split: option.splits simp: get_cell_upd)

lemma init_cell_candidates:
  assumes "cvalue (get_cell g p) = None" "get_group g p = Some gr"
  shows "set (candidates (get_cell (init_cell g p) p)) =
     {v \<in> {1..gsize gr}. \<forall>q \<in> set (get_group_peers g p) \<union> set (neighbors g p).
          cvalue (get_cell g q) \<noteq> Some v}"
proof -
  have eq: "(\<lambda>cs q. if cvalue (get_cell g q) \<noteq> None
                     then discard_value (cvalue (get_cell g q)) cs else cs)
          = (\<lambda>cs q. discard_value (cvalue (get_cell g q)) cs)"
    by (intro ext) (simp add: discard_value_def)
  show ?thesis
    unfolding init_cell_def eq using assms
    by (auto simp: get_cell_upd discard_fold_set)
qed

lemma init_fold_candidates:
  assumes "distinct ps" "p \<in> set ps" "cvalue (get_cell g p) = None" "get_group g p = Some gr"
  shows "set (candidates (get_cell (foldl init_cell g ps) p)) =
     {v \<in> {1..gsize gr}. \<forall>q \<in> set (get_group_peers g p) \<union> set (neighbors g p).
          cvalue (get_cell g q) \<noteq> Some v}"
  using assms(1,2)
proof (induction ps rule: rev_induct)
  case Nil
  then show ?case by simp
next
  case (snoc x ps)
  let ?g = "foldl init_cell g ps"
  have b: "same_board g ?g" by (rule init_fold_board)
  show ?case
  proof (cases "x = p")
    case True
    have "set (candidates (get_cell (init_cell ?g p) p)) =
       {v \<in> {1..gsize gr}. \<forall>q \<in> set (get_group_peers ?g p) \<union> set (neighbors ?g p).
          cvalue (get_cell ?g q) \<noteq> Some v}"
      by (rule init_cell_candidates)
         (simp_all add: same_boardD(4) [OF b] same_board_get_group [OF b] assms)
    then show ?thesis
      unfolding foldl_append foldl_Cons foldl_Nil True
      by (simp only: same_board_peers [OF b] same_board_neighbors [OF b] same_boardD(4) [OF b])
  next
    case False
    with snoc.prems have "p \<in> set ps" "distinct ps" by simp_all
    with snoc.IH have "set (candidates (get_cell ?g p)) =
       {v \<in> {1..gsize gr}. \<forall>q \<in> set (get_group_peers g p) \<union> set (neighbors g p).
          cvalue (get_cell g q) \<noteq> Some v}"
      by simp
    with False show ?thesis
      unfolding foldl_append foldl_Cons foldl_Nil by (simp add: init_cell_other)
  qed
qed

lemma distinct_all_positions: "distinct (all_positions n m)"
  unfolding all_positions_def product_concat_map [symmetric]
  by (simp add: distinct_product)

lemma solves_value:
  assumes "wf_grid g" "solves g sv" "gr \<in> set (groups g)" "q \<in> set (gcells gr)"
  shows "1 \<le> sv q" "sv q \<le> gsize gr"
proof -
  from solvesD(2) [OF assms(2,3)] assms(4) have "sv q \<in> {1..gsize gr}" by blast
  then show "1 \<le> sv q" "sv q \<le> gsize gr" by simp_all
qed

lemma solves_peer:
  assumes "wf_grid g" "solves g sv" "gr \<in> set (groups g)" "q \<in> set (gcells gr)"
    "q' \<in> set (gcells gr)" "q \<noteq> q'"
  shows "sv q \<noteq> sv q'"
  using solvesD(1) [OF assms(2,3)] assms(4-6) by (auto dest: inj_onD)

lemma wf_peers:
  assumes "wf_grid g" "gr \<in> set (groups g)" "p \<in> set (gcells gr)"
  shows "get_group g p = Some gr" "set (get_group_peers g p) = set (gcells gr) - {p}"
proof -
  from wf_gridD(4) [OF assms] have ig: "in_grid g p" .
  from wf_get_group [OF assms(1) ig] obtain gr' where
    g': "get_group g p = Some gr'" "gr' \<in> set (groups g)" "p \<in> set (gcells gr')"
    by blast
  from group_unique [OF assms(1,2) g'(2) assms(3) g'(3)] have "gr = gr'" .
  with g' show "get_group g p = Some gr" by simp
  then show "set (get_group_peers g p) = set (gcells gr) - {p}"
    by (auto simp: get_group_peers_def)
qed

lemma init_candidates_sound:
  assumes wf: "wf_grid g" and sol: "solves g sv"
  shows "sound sv (init_candidates g)"
proof -
  let ?g = "init_candidates g"
  have b: "same_board g ?g" unfolding init_candidates_def by (rule init_fold_board)
  note bd = same_boardD [OF b] same_board_in_grid [OF b]
  have cands: "set (candidates (get_cell ?g p)) =
     {v \<in> {1..gsize gr}. \<forall>q \<in> set (gcells gr) - {p} \<union> set (neighbors g p).
          cvalue (get_cell g q) \<noteq> Some v}"
    if "gr \<in> set (groups g)" "p \<in> set (gcells gr)" "cvalue (get_cell g p) = None" for gr p
  proof -
    from wf_gridD(4) [OF wf that(1,2)] have "p \<in> set (all_positions (rows g) (cols g))"
      by (simp add: in_grid_positions)
    from init_fold_candidates [OF distinct_all_positions this that(3) wf_peers(1) [OF wf that(1,2)]]
    show ?thesis
      unfolding init_candidates_def wf_peers(2) [OF wf that(1,2)] .
  qed
  show ?thesis
  proof (rule soundI)
    show "wf_grid ?g" using wf by (simp add: same_board_wf [OF b])
    show "solves ?g sv" using sol by (simp add: same_board_solves [OF b])
    show "sv p \<in> set (candidates (get_cell ?g p))"
      if "in_grid ?g p" "cvalue (get_cell ?g p) = None" for p
    proof -
      from that have ig: "in_grid g p" and e: "cvalue (get_cell g p) = None" by (simp_all add: bd)
      from wf_get_group [OF wf ig] obtain gr where
        gr: "gr \<in> set (groups g)" "p \<in> set (gcells gr)" by blast
      have "cvalue (get_cell g q) \<noteq> Some (sv p)" if q: "q \<in> set (gcells gr) - {p}" for q
      proof
        assume f: "cvalue (get_cell g q) = Some (sv p)"
        from q have qg: "q \<in> set (gcells gr)" and ne: "p \<noteq> q" by auto
        from solvesD(4) [OF sol wf_gridD(4) [OF wf gr(1) qg] f] have "sv q = sv p" .
        with solves_peer [OF wf sol gr(1) gr(2) qg ne] show False by simp
      qed
      moreover have "cvalue (get_cell g q) \<noteq> Some (sv p)" if q: "q \<in> set (neighbors g p)" for q
      proof
        assume f: "cvalue (get_cell g q) = Some (sv p)"
        from neighbors_subset [OF q] have qi: "in_grid g q" and adj: "adjacent p q" by simp_all
        from solvesD(4) [OF sol qi f] have "sv q = sv p" .
        with solvesD(3) [OF sol ig qi adj] show False by simp
      qed
      ultimately show ?thesis
        unfolding cands [OF gr e] using solves_value [OF wf sol gr] by auto
    qed
    show "v \<notin> set (candidates (get_cell ?g q))"
      if "gr \<in> set (groups ?g)" "q \<in> set (gcells gr)" "q' \<in> set (gcells gr)" "q \<noteq> q'"
        "cvalue (get_cell ?g q) = None" "cvalue (get_cell ?g q') = Some v" for gr q q' v
    proof -
      from that have gr: "gr \<in> set (groups g)" and e: "cvalue (get_cell g q) = None"
        and f: "cvalue (get_cell g q') = Some v" by (simp_all add: bd)
      show ?thesis unfolding cands [OF gr that(2) e] using that(3,4) f by auto
    qed
    show "set (candidates (get_cell ?g q)) \<subseteq> {1..gsize gr}"
      if "gr \<in> set (groups ?g)" "q \<in> set (gcells gr)" "cvalue (get_cell ?g q) = None" for gr q
    proof -
      from that have gr: "gr \<in> set (groups g)" and e: "cvalue (get_cell g q) = None"
        by (simp_all add: bd)
      show ?thesis unfolding cands [OF gr that(2) e] by auto
    qed
  qed
qed

text \<open>\<open>_place_value\<close> with the value of the solution raises nothing and keeps the
  invariant.\<close>

lemma wf_grid_shape:
  assumes "rows g' = rows g" "cols g' = cols g" "groups g' = groups g"
    "\<And>p. group_id (get_cell g' p) = group_id (get_cell g p)"
  shows "wf_grid g' = wf_grid g"
  unfolding wf_grid_def by (simp add: assms in_grid_def)

lemma discard_from_ok:
  assumes "\<And>q. q \<in> set qs \<Longrightarrow> cvalue (get_cell g q) = None
             \<Longrightarrow> \<exists>w \<in> set (candidates (get_cell g q)). w \<noteq> v"
  shows "\<exists>g'. discard_from v g qs = Inr g' \<and> same_board g g'
           \<and> (\<forall>q. candidates (get_cell g' q) =
                  (if q \<in> set qs then removeAll v (candidates (get_cell g q))
                   else candidates (get_cell g q)))"
  using assms
proof (induction qs arbitrary: g)
  case Nil
  show ?case by (simp add: same_board_refl)
next
  case (Cons x qs)
  let ?g1 = "upd_cell g x (\<lambda>c. c\<lparr>candidates := discard_value (Some v) (candidates c)\<rparr>)"
  have b1: "same_board g ?g1" by (rule same_board_upd) simp_all
  have c1: "candidates (get_cell ?g1 q) =
      (if q = x then removeAll v (candidates (get_cell g q)) else candidates (get_cell g q))" for q
    by (simp add: get_cell_upd discard_value_def)
  have ok: "\<not> (cvalue (get_cell ?g1 x) = None \<and> length (candidates (get_cell ?g1 x)) = 0)"
  proof
    assume a: "cvalue (get_cell ?g1 x) = None \<and> length (candidates (get_cell ?g1 x)) = 0"
    then have "cvalue (get_cell g x) = None" by (simp add: same_boardD(4) [OF b1])
    from Cons.prems [OF _ this] obtain w where "w \<in> set (candidates (get_cell g x))" "w \<noteq> v"
      by auto
    then have "w \<in> set (candidates (get_cell ?g1 x))" by (simp add: c1)
    with a show False by simp
  qed
  have "\<exists>w \<in> set (candidates (get_cell ?g1 q)). w \<noteq> v"
    if "q \<in> set qs" "cvalue (get_cell ?g1 q) = None" for q
  proof -
    from that have "cvalue (get_cell g q) = None" by (simp add: same_boardD(4) [OF b1])
    from Cons.prems [OF _ this] that(1) obtain w where "w \<in> set (candidates (get_cell g q))" "w \<noteq> v"
      by auto
    then have "w \<in> set (candidates (get_cell ?g1 q)) \<and> w \<noteq> v" by (auto simp: c1)
    then show ?thesis by blast
  qed
  from Cons.IH [OF this] obtain g' where g': "discard_from v ?g1 qs = Inr g'" "same_board ?g1 g'"
    and c': "\<And>q. candidates (get_cell g' q) =
                  (if q \<in> set qs then removeAll v (candidates (get_cell ?g1 q))
                   else candidates (get_cell ?g1 q))"
    by blast
  have "discard_from v g (x # qs) = Inr g'"
    using ok g'(1) by (simp del: upd_cell_fields add: Let_def)
  moreover have "same_board g g'" by (rule same_board_trans [OF b1 g'(2)])
  moreover have "candidates (get_cell g' q) =
                  (if q \<in> set (x # qs) then removeAll v (candidates (get_cell g q))
                   else candidates (get_cell g q))" for q
    unfolding c' c1 by simp
  ultimately show ?case by blast
qed

lemma place_value_sound:
  assumes s: "sound sv g" and ig: "in_grid g p" and e: "cvalue (get_cell g p) = None"
    and v: "sv p = v"
  shows "\<exists>g'. place_value g p v = Inr g' \<and> sound sv g' \<and> narrows g g'"
proof -
  note wf = soundD(1) [OF s] and sol = soundD(2) [OF s]
  from wf_get_group [OF wf ig] obtain gr where
    gr: "gr \<in> set (groups g)" "p \<in> set (gcells gr)" by blast
  define g1 where "g1 = upd_cell g p (\<lambda>c. c\<lparr>cvalue := Some v, candidates := []\<rparr>)"
  have sh1: "rows g1 = rows g" "cols g1 = cols g" "groups g1 = groups g"
    "\<And>q. group_id (get_cell g1 q) = group_id (get_cell g q)"
    "\<And>q. in_grid g1 q = in_grid g q"
    by (simp_all add: g1_def get_cell_upd in_grid_def)
  have v1: "cvalue (get_cell g1 q) = (if q = p then Some v else cvalue (get_cell g q))" for q
    by (simp add: g1_def get_cell_upd)
  have c1: "q \<noteq> p \<Longrightarrow> candidates (get_cell g1 q) = candidates (get_cell g q)" for q
    by (simp add: g1_def get_cell_upd)
  have gg1: "get_group g1 q = get_group g q" for q
    by (simp add: get_group_def sh1)
  have peers1: "get_group_peers g1 p = get_group_peers g p"
    by (simp add: get_group_peers_def gg1)
  have peers: "set (get_group_peers g p) = set (gcells gr) - {p}"
    by (rule wf_peers(2) [OF wf gr])
  have nb: "q \<in> set (neighbors g p) \<longleftrightarrow> in_grid g q \<and> adjacent p q" for q
    by (simp add: set_neighbors)
  have ne_peer: "sv q \<noteq> v" if "q \<in> set (get_group_peers g p)" for q
    using solves_peer [OF wf sol gr(1) gr(2), of q] that v by (auto simp: peers)
  have ne_nb: "sv q \<noteq> v" if "q \<in> set (neighbors g p)" for q
    using solvesD(3) [OF sol ig, of q] that v by (auto simp: nb)
  have np: "p \<notin> set (get_group_peers g p)" "p \<notin> set (neighbors g p)"
    by (simp_all add: peers nb adjacent_def)
  have "\<exists>w \<in> set (candidates (get_cell g1 q)). w \<noteq> v"
    if "q \<in> set (get_group_peers g1 p)" "cvalue (get_cell g1 q) = None" for q
  proof -
    from that have q: "q \<in> set (get_group_peers g p)" and qp: "q \<noteq> p"
      and qe: "cvalue (get_cell g q) = None"
      using np by (auto simp: peers1 v1 split: if_splits)
    from q have "in_grid g q" using wf_gridD(4) [OF wf gr(1)] by (simp add: peers)
    from soundD(3) [OF s this qe] ne_peer [OF q] qp show ?thesis by (auto simp: c1)
  qed
  from discard_from_ok [of "get_group_peers g1 p" g1 v, OF this] obtain g2 where
    g2: "discard_from v g1 (get_group_peers g1 p) = Inr g2" "same_board g1 g2"
    and c2: "\<And>q. candidates (get_cell g2 q) =
                  (if q \<in> set (get_group_peers g p) then removeAll v (candidates (get_cell g1 q))
                   else candidates (get_cell g1 q))"
    unfolding peers1 by blast
  note b2 = same_boardD [OF g2(2)] same_board_in_grid [OF g2(2)]
  have nb2: "neighbors g2 p = neighbors g p"
    by (simp add: neighbors_def out_of_bounds_def b2 sh1)
  have "\<exists>w \<in> set (candidates (get_cell g2 q)). w \<noteq> v"
    if "q \<in> set (neighbors g2 p)" "cvalue (get_cell g2 q) = None" for q
  proof -
    from that have q: "q \<in> set (neighbors g p)" and qp: "q \<noteq> p"
      and qe: "cvalue (get_cell g q) = None"
      using np by (auto simp: nb2 b2 v1 split: if_splits)
    from q have "in_grid g q" by (simp add: nb)
    from soundD(3) [OF s this qe] ne_nb [OF q] qp show ?thesis by (auto simp: c2 c1)
  qed
  from discard_from_ok [of "neighbors g2 p" g2 v, OF this] obtain g3 where
    g3: "discard_from v g2 (neighbors g2 p) = Inr g3" "same_board g2 g3"
    and c3': "\<And>q. candidates (get_cell g3 q) =
                  (if q \<in> set (neighbors g p) then removeAll v (candidates (get_cell g2 q))
                   else candidates (get_cell g2 q))"
    unfolding nb2 by blast
  note b3 = same_boardD [OF g3(2)] same_board_in_grid [OF g3(2)]
  have pv: "place_value g p v = Inr g3"
    unfolding place_value_def g1_def [symmetric] Let_def using g2(1) g3(1) by simp
  have sh3: "rows g3 = rows g" "cols g3 = cols g" "groups g3 = groups g"
    "\<And>q. group_id (get_cell g3 q) = group_id (get_cell g q)"
    "\<And>q. in_grid g3 q = in_grid g q"
    by (simp_all add: b3 b2 sh1)
  have v3: "cvalue (get_cell g3 q) = (if q = p then Some v else cvalue (get_cell g q))" for q
    by (simp add: b3 b2 v1)
  have c3: "set (candidates (get_cell g3 q)) =
      set (candidates (get_cell g q))
        - (if q \<in> set (get_group_peers g p) \<union> set (neighbors g p) then {v} else {})"
    if "q \<noteq> p" for q
    unfolding c3' c2 using that by (auto simp: c1)
  have "sound sv g3"
  proof (rule soundI)
    show "wf_grid g3" using wf by (simp add: wf_grid_shape [OF sh3(1-4)])
    show "solves g3 sv"
      using sol v unfolding solves_def sh3 v3 by (auto split: if_splits)
    show "sv q \<in> set (candidates (get_cell g3 q))"
      if "in_grid g3 q" "cvalue (get_cell g3 q) = None" for q
    proof -
      from that have qp: "q \<noteq> p" and qi: "in_grid g q" and qe: "cvalue (get_cell g q) = None"
        by (auto simp: sh3 v3 split: if_splits)
      from soundD(3) [OF s qi qe] ne_peer [of q] ne_nb [of q] show ?thesis
        unfolding c3 [OF qp] by auto
    qed
    show "w \<notin> set (candidates (get_cell g3 q))"
      if "gr' \<in> set (groups g3)" "q \<in> set (gcells gr')" "q' \<in> set (gcells gr')" "q \<noteq> q'"
        "cvalue (get_cell g3 q) = None" "cvalue (get_cell g3 q') = Some w" for gr' q q' w
    proof -
      from that have gr': "gr' \<in> set (groups g)" and qp: "q \<noteq> p"
        and qe: "cvalue (get_cell g q) = None"
        by (auto simp: sh3 v3 split: if_splits)
      show ?thesis
      proof (cases "q' = p")
        case True
        with that(6) have w: "w = v" by (simp add: v3)
        from True that(3) have "p \<in> set (gcells gr')" by simp
        from group_unique [OF wf gr(1) gr' gr(2) this] have "gr' = gr" by simp
        with that(2) qp have "q \<in> set (get_group_peers g p)" by (simp add: peers)
        then show ?thesis unfolding c3 [OF qp] w by simp
      next
        case False
        with that(6) have "cvalue (get_cell g q') = Some w" by (simp add: v3)
        from soundD(4) [OF s gr' that(2,3,4) qe this] show ?thesis
          unfolding c3 [OF qp] by simp
      qed
    qed
    show "set (candidates (get_cell g3 q)) \<subseteq> {1..gsize gr'}"
      if "gr' \<in> set (groups g3)" "q \<in> set (gcells gr')" "cvalue (get_cell g3 q) = None" for gr' q
    proof -
      from that have gr': "gr' \<in> set (groups g)" and qp: "q \<noteq> p"
        and qe: "cvalue (get_cell g q) = None"
        by (auto simp: sh3 v3 split: if_splits)
      from soundD(5) [OF s gr' that(2) qe] show ?thesis
        unfolding c3 [OF qp] by auto
    qed
  qed
  moreover have "narrows g g3"
    unfolding narrows_def
  proof (intro conjI allI impI)
    fix q
    assume a: "cvalue (get_cell g3 q) = None"
    then have qp: "q \<noteq> p" by (auto simp: v3 split: if_splits)
    from a qp show "cvalue (get_cell g q) = None" by (simp add: v3)
    show "set (candidates (get_cell g3 q)) \<subseteq> set (candidates (get_cell g q))"
      unfolding c3 [OF qp] by auto
  qed (simp_all add: sh3)
  ultimately show ?thesis using pv by blast
qed

lemma narrows_refl: "narrows g g"
  by (simp add: narrows_def)

lemma narrows_trans: "narrows g g' \<Longrightarrow> narrows g' g'' \<Longrightarrow> narrows g g''"
  unfolding narrows_def by (metis subset_trans)

lemma holders_narrows:
  assumes "narrows g g'"
  shows "length (holders g' gr v) \<le> length (holders g gr v)"
  unfolding holders_def
proof (rule length_filter_imp)
  fix q
  assume "cvalue (get_cell g' q) = None \<and> v \<in> set (candidates (get_cell g' q))"
  with assms show "cvalue (get_cell g q) = None \<and> v \<in> set (candidates (get_cell g q))"
    unfolding narrows_def by blast
qed

text \<open>The techniques of level 1 place only values of the solution.\<close>

lemma narrows_in_grid: "narrows g g' \<Longrightarrow> in_grid g' p = in_grid g p"
  by (simp add: narrows_def in_grid_def)

lemma naked_single_scan_sound:
  assumes "sound sv (sgrid s)" "\<And>p. p \<in> set ps \<Longrightarrow> in_grid (sgrid s) p"
  shows "\<exists>s' b. naked_single_scan s is_placed ps = Inr (s', b) \<and> sound sv (sgrid s')
            \<and> narrows (sgrid s) (sgrid s')"
  using assms
proof (induction ps arbitrary: s is_placed)
  case Nil
  then show ?case by (simp add: narrows_refl)
next
  case (Cons p ps)
  let ?c = "get_cell (sgrid s) p"
  show ?case
  proof (cases "cvalue ?c = None \<and> length (candidates ?c) = 1")
    case True
    then obtain w where w: "candidates ?c = [w]"
      by (cases "candidates ?c") auto
    from Cons.prems(2) have ig: "in_grid (sgrid s) p" by simp
    from soundD(3) [OF Cons.prems(1) ig] True w have svp: "sv p = w" by simp
    from True have pe: "cvalue (get_cell (sgrid s) p) = None" by simp
    from place_value_sound [OF Cons.prems(1) ig pe svp] obtain g' where
      g': "place_value (sgrid s) p w = Inr g'" "sound sv g'" "narrows (sgrid s) g'"
      by blast
    let ?s1 = "add_technique ''naked_single'' (s\<lparr>sgrid := g'\<rparr>)"
    have "\<exists>s' b. naked_single_scan ?s1 True ps = Inr (s', b) \<and> sound sv (sgrid s')
            \<and> narrows (sgrid ?s1) (sgrid s')"
    proof (rule Cons.IH)
      show "sound sv (sgrid ?s1)" using g'(2) by simp
      show "in_grid (sgrid ?s1) q" if "q \<in> set ps" for q
        using Cons.prems(2) [of q] that by (simp add: narrows_in_grid [OF g'(3)])
    qed
    then obtain s' b where r: "naked_single_scan ?s1 True ps = Inr (s', b)" "sound sv (sgrid s')"
      "narrows g' (sgrid s')" by auto
    have "naked_single_scan s is_placed (p # ps) = Inr (s', b)"
      using True w g'(1) r(1) by (simp add: Let_def)
    with r(2) narrows_trans [OF g'(3) r(3)] show ?thesis by blast
  next
    case False
    from Cons.IH [of s is_placed, OF Cons.prems(1)] Cons.prems(2) obtain s' b where
      r: "naked_single_scan s is_placed ps = Inr (s', b)" "sound sv (sgrid s')"
      "narrows (sgrid s) (sgrid s')" by auto
    have "naked_single_scan s is_placed (p # ps) = Inr (s', b)"
      using False r(1) by (auto simp: Let_def)
    with r(2,3) show ?thesis by blast
  qed
qed

lemma naked_single_sound:
  assumes "sound sv (sgrid s)"
  shows "\<exists>s' b. naked_single s = Inr (s', b) \<and> sound sv (sgrid s')"
proof -
  from naked_single_scan_sound [OF assms, of "all_positions (rows (sgrid s)) (cols (sgrid s))" False]
  show ?thesis unfolding naked_single_def by (auto simp: in_grid_positions)
qed

lemma holder_solution:
  assumes s: "sound sv g" and gr: "gr \<in> set (groups g)" and h: "q \<in> set (holders g gr v)"
  shows "\<exists>c \<in> set (holders g gr v). sv c = v"
proof -
  note wf = soundD(1) [OF s] and sol = soundD(2) [OF s]
  from h have q: "q \<in> set (gcells gr)" and qe: "cvalue (get_cell g q) = None"
    and qv: "v \<in> set (candidates (get_cell g q))"
    by (simp_all add: holders_def)
  from soundD(5) [OF s gr q qe] qv have "v \<in> {1..gsize gr}" by blast
  with solvesD(2) [OF sol gr] have "v \<in> sv ` set (gcells gr)" by simp
  then obtain c where c: "c \<in> set (gcells gr)" "sv c = v" by auto
  have ci: "in_grid g c" by (rule wf_gridD(4) [OF wf gr c(1)])
  have "cvalue (get_cell g c) = None"
  proof (rule ccontr)
    assume "cvalue (get_cell g c) \<noteq> None"
    then obtain w where w: "cvalue (get_cell g c) = Some w" by blast
    from solvesD(4) [OF sol ci w] c(2) have wv: "w = v" by simp
    from w qe have "q \<noteq> c" by auto
    from soundD(4) [OF s gr q c(1) this qe w] qv wv show False by simp
  qed
  with soundD(3) [OF s ci] c have "c \<in> set (holders g gr v)" by (auto simp: holders_def)
  with c(2) show ?thesis by blast
qed

lemma holders_member:
  assumes "wf_grid g" "gr \<in> set (groups g)" "q \<in> set (holders g gr v)"
  shows "q \<in> set (gcells gr)" "in_grid g q" "cvalue (get_cell g q) = None"
    "v \<in> set (candidates (get_cell g q))"
proof -
  from assms(3) show q: "q \<in> set (gcells gr)" and "cvalue (get_cell g q) = None"
    and "v \<in> set (candidates (get_cell g q))"
    by (simp_all add: holders_def)
  show "in_grid g q" by (rule wf_gridD(4) [OF assms(1,2) q])
qed

lemma sole_holder:
  assumes s: "sound sv g" and gr: "gr \<in> set (groups g)" and h: "holders g gr v = [q]"
  shows "sv q = v" "in_grid g q" "cvalue (get_cell g q) = None"
proof -
  from h have q: "q \<in> set (holders g gr v)" by simp
  from holders_member [OF soundD(1) [OF s] gr q]
  show "in_grid g q" "cvalue (get_cell g q) = None" by simp_all
  from holder_solution [OF s gr q] h show "sv q = v" by simp
qed

lemma hidden_single_values_sound:
  assumes "sound sv (sgrid s)" "gr \<in> set (groups (sgrid s))"
    "\<And>v. v \<in> set vs \<Longrightarrow> length (holders (sgrid s) gr v) \<le> 1"
  shows "\<exists>s' b. hidden_single_values s is_placed gr vs = Inr (s', b) \<and> sound sv (sgrid s')
            \<and> narrows (sgrid s) (sgrid s')"
  using assms
proof (induction vs arbitrary: s is_placed)
  case Nil
  then show ?case by (simp add: narrows_refl)
next
  case (Cons v vs)
  show ?case
  proof (cases "holders (sgrid s) gr v")
    case Nil
    from Cons.IH [of s is_placed, OF Cons.prems(1,2)] Cons.prems(3) obtain s' b where
      r: "hidden_single_values s is_placed gr vs = Inr (s', b)" "sound sv (sgrid s')"
      "narrows (sgrid s) (sgrid s')" by auto
    have "hidden_single_values s is_placed gr (v # vs) = Inr (s', b)"
      using Nil r(1) by simp
    with r(2,3) show ?thesis by blast
  next
    case (Cons q rest)
    from Cons.prems(3) [of v] Cons have h: "holders (sgrid s) gr v = [q]" by simp
    note sh = sole_holder [OF Cons.prems(1,2) h]
    from place_value_sound [OF Cons.prems(1) sh(2,3,1)] obtain g' where
      g': "place_value (sgrid s) q v = Inr g'" "sound sv g'" "narrows (sgrid s) g'"
      by blast
    let ?s1 = "add_technique ''hidden_single'' (s\<lparr>sgrid := g'\<rparr>)"
    have "\<exists>s' b. hidden_single_values ?s1 True gr vs = Inr (s', b) \<and> sound sv (sgrid s')
            \<and> narrows (sgrid ?s1) (sgrid s')"
    proof (rule Cons.IH)
      show "sound sv (sgrid ?s1)" using g'(2) by simp
      show "gr \<in> set (groups (sgrid ?s1))" using Cons.prems(2) g'(3) by (simp add: narrows_def)
      show "length (holders (sgrid ?s1) gr w) \<le> 1" if "w \<in> set vs" for w
        using holders_narrows [OF g'(3), of gr w] Cons.prems(3) [of w] that by simp
    qed
    then obtain s' b where r: "hidden_single_values ?s1 True gr vs = Inr (s', b)"
      "sound sv (sgrid s')" "narrows g' (sgrid s')" by auto
    have "hidden_single_values s is_placed gr (v # vs) = Inr (s', b)"
      using h g'(1) r(1) by simp
    with r(2) narrows_trans [OF g'(3) r(3)] show ?thesis by blast
  qed
qed

lemma hidden_single_groups_sound:
  assumes "sound sv (sgrid s)" "set grs \<subseteq> set (groups (sgrid s))"
  shows "\<exists>s' b. hidden_single_groups s is_placed grs = Inr (s', b) \<and> sound sv (sgrid s')"
  using assms
proof (induction grs arbitrary: s is_placed)
  case Nil
  then show ?case by simp
next
  case (Cons gr grs)
  from Cons.prems(2) have gr: "gr \<in> set (groups (sgrid s))" by simp
  have "length (holders (sgrid s) gr v) \<le> 1" if "v \<in> set (to_place (sgrid s) gr)" for v
    using that by (simp add: to_place_def)
  from hidden_single_values_sound [OF Cons.prems(1) gr this, of "to_place (sgrid s) gr" is_placed]
  obtain s1 b1 where
    r1: "hidden_single_values s is_placed gr (to_place (sgrid s) gr) = Inr (s1, b1)"
    "sound sv (sgrid s1)" "narrows (sgrid s) (sgrid s1)" by blast
  from r1(3) Cons.prems(2) have "set grs \<subseteq> set (groups (sgrid s1))" by (simp add: narrows_def)
  from Cons.IH [OF r1(2) this, of b1] obtain s' b where
    r: "hidden_single_groups s1 b1 grs = Inr (s', b)" "sound sv (sgrid s')" by blast
  have "hidden_single_groups s is_placed (gr # grs) = Inr (s', b)"
    using r1(1) r(1) by simp
  with r(2) show ?case by blast
qed

lemma hidden_single_sound:
  assumes "sound sv (sgrid s)"
  shows "\<exists>s' b. hidden_single s = Inr (s', b) \<and> sound sv (sgrid s')"
  unfolding hidden_single_def by (rule hidden_single_groups_sound [OF assms]) simp

lemma level1_sound:
  "sound sv (sgrid s) \<Longrightarrow> \<exists>s' c'. level1 s changed = Inr (s', c') \<and> sound sv (sgrid s')"
proof (induction s changed rule: level1.induct)
  case (1 s changed)
  from naked_single_sound [OF "1.prems"] obtain s1 p1 where
    ns: "naked_single s = Inr (s1, p1)" and s1: "sound sv (sgrid s1)" by blast
  show ?case
  proof (cases p1)
    case True
    from "1.IH"(1) [OF ns refl True s1] obtain s' c' where
      "level1 s1 True = Inr (s', c')" "sound sv (sgrid s')" by blast
    with ns True show ?thesis by (subst level1.simps) simp
  next
    case False
    from hidden_single_sound [OF s1] obtain s2 p2 where
      hs: "hidden_single s1 = Inr (s2, p2)" and s2: "sound sv (sgrid s2)" by blast
    show ?thesis
    proof (cases p2)
      case True
      from "1.IH"(2) [OF ns refl False hs refl True s2] obtain s' c' where
        "level1 s2 True = Inr (s', c')" "sound sv (sgrid s')" by blast
      with ns hs False True show ?thesis by (subst level1.simps) simp
    next
      case p2: False
      with ns hs False s2 show ?thesis by (subst level1.simps) simp
    qed
  qed
qed

text \<open>The eliminations of levels 2 and 3 remove no value of the solution.\<close>

lemma upd_cell_cong: "f (get_cell g q) = f' (get_cell g q) \<Longrightarrow> upd_cell g q f = upd_cell g q f'"
  by (simp add: upd_cell_def get_cell_def)

lemma keepsD:
  assumes "keeps sv g0 sp"
  shows "sound sv (sgrid (fst sp))" "same_board g0 (sgrid (fst sp))"
  using assms by (simp_all add: keeps_def)

lemma keeps_start: "sound sv (sgrid s) \<Longrightarrow> keeps sv (sgrid s) (s, b)"
  by (simp add: keeps_def same_board_refl)

lemma keeps_upd:
  assumes k: "keeps sv g0 sp"
    and g': "sgrid (fst sp') = upd_cell (sgrid (fst sp)) q f"
    and f: "f (get_cell (sgrid (fst sp)) q) = (get_cell (sgrid (fst sp)) q)\<lparr>candidates := cs\<rparr>"
    and sub: "set cs \<subseteq> set (candidates (get_cell (sgrid (fst sp)) q))"
    and keep: "sv q \<in> set (candidates (get_cell (sgrid (fst sp)) q)) \<Longrightarrow> sv q \<in> set cs"
  shows "keeps sv g0 sp'"
proof -
  let ?g = "sgrid (fst sp)"
  let ?g' = "upd_cell ?g q (\<lambda>c. c\<lparr>candidates := cs\<rparr>)"
  have eq: "sgrid (fst sp') = ?g'"
    unfolding g' by (rule upd_cell_cong) (simp add: f)
  have "sound sv ?g'"
  proof (rule sound_upd_candidates [OF keepsD(1) [OF k] sub])
    assume "in_grid ?g q" "cvalue (get_cell ?g q) = None"
    from keep [OF soundD(3) [OF keepsD(1) [OF k] this]] show "sv q \<in> set cs" .
  qed
  moreover have "same_board ?g ?g'" by (rule same_board_upd) simp_all
  ultimately show ?thesis
    unfolding keeps_def eq using same_board_trans [OF keepsD(2) [OF k]] by blast
qed

lemma foldl_keeps:
  assumes "\<And>sp x. x \<in> set xs \<Longrightarrow> keeps sv g0 sp \<Longrightarrow> keeps sv g0 (f sp x)"
    and "keeps sv g0 sp"
  shows "keeps sv g0 (foldl f sp xs)"
  using assms
proof (induction xs arbitrary: sp)
  case Nil
  then show ?case by simp
next
  case (Cons x xs)
  show ?case
    unfolding foldl_Cons
    by (rule Cons.IH) (simp_all add: Cons.prems)
qed

lemma eliminate_keeps:
  assumes "keeps sv g0 sp" "sv q \<noteq> v"
  shows "keeps sv g0 (eliminate v sp q)"
proof (cases "cvalue (get_cell (sgrid (fst sp)) q) = None
              \<and> v \<in> set (candidates (get_cell (sgrid (fst sp)) q))")
  case True
  show ?thesis
  proof (rule keeps_upd [OF assms(1)])
    show "sgrid (fst (eliminate v sp q)) = upd_cell (sgrid (fst sp)) q
        (\<lambda>c. c\<lparr>candidates := discard_value (Some v) (candidates c)\<rparr>)"
      using True by (simp add: eliminate_def Let_def)
    show "(get_cell (sgrid (fst sp)) q)\<lparr>candidates :=
            discard_value (Some v) (candidates (get_cell (sgrid (fst sp)) q))\<rparr>
        = (get_cell (sgrid (fst sp)) q)\<lparr>candidates :=
            removeAll v (candidates (get_cell (sgrid (fst sp)) q))\<rparr>"
      by (simp add: discard_value_def)
    show "set (removeAll v (candidates (get_cell (sgrid (fst sp)) q)))
        \<subseteq> set (candidates (get_cell (sgrid (fst sp)) q))" by auto
    show "sv q \<in> set (removeAll v (candidates (get_cell (sgrid (fst sp)) q)))"
      if "sv q \<in> set (candidates (get_cell (sgrid (fst sp)) q))"
      using that assms(2) by simp
  qed
next
  case False
  then have "eliminate v sp q = sp" by (auto simp: eliminate_def Let_def)
  with assms(1) show ?thesis by simp
qed

lemma remove_candidates_keeps:
  assumes "keeps sv g0 sp" "sv q \<notin> set vs"
  shows "keeps sv g0 (remove_candidates name vs sp q)"
proof (rule keeps_upd [OF assms(1)])
  show "sgrid (fst (remove_candidates name vs sp q)) = upd_cell (sgrid (fst sp)) q
        (\<lambda>c. c\<lparr>candidates := filter (\<lambda>v. v \<notin> set vs) (candidates c)\<rparr>)"
    by (simp add: remove_candidates_def Let_def)
  show "(get_cell (sgrid (fst sp)) q)\<lparr>candidates :=
            filter (\<lambda>v. v \<notin> set vs) (candidates (get_cell (sgrid (fst sp)) q))\<rparr>
        = (get_cell (sgrid (fst sp)) q)\<lparr>candidates :=
            filter (\<lambda>v. v \<notin> set vs) (candidates (get_cell (sgrid (fst sp)) q))\<rparr>"
    by (rule refl)
  show "set (filter (\<lambda>v. v \<notin> set vs) (candidates (get_cell (sgrid (fst sp)) q)))
        \<subseteq> set (candidates (get_cell (sgrid (fst sp)) q))" by auto
  show "sv q \<in> set (filter (\<lambda>v. v \<notin> set vs) (candidates (get_cell (sgrid (fst sp)) q)))"
    if "sv q \<in> set (candidates (get_cell (sgrid (fst sp)) q))"
    using that assms(2) by simp
qed

text \<open>\<open>_neighbor_elimination\<close>.\<close>

lemma neighbor_elimination_value_keeps:
  assumes s0: "sound sv g0" and gr: "gr \<in> set (groups g0)"
    and vc: "snd vc = holders g0 gr (fst vc)" and k: "keeps sv g0 sp"
  shows "keeps sv g0 (neighbor_elimination_value sp vc)"
proof (cases "length (snd vc) > 1")
  case False
  with k show ?thesis by (simp add: neighbor_elimination_value_def)
next
  case True
  note wf = soundD(1) [OF s0] and sol = soundD(2) [OF s0]
  let ?v = "fst vc" and ?cs = "snd vc"
  from True obtain q where "q \<in> set ?cs" by (cases "snd vc") auto
  with vc have "q \<in> set (holders g0 gr ?v)" by simp
  from holder_solution [OF s0 gr this] vc obtain c where c: "c \<in> set ?cs" "sv c = ?v" by auto
  from c(1) vc have ci: "in_grid g0 c"
    using holders_member(2) [OF wf gr, of c ?v] by simp
  have nb: "neighbors (sgrid (fst sp)) x = neighbors g0 x" for x
    by (rule same_board_neighbors [OF keepsD(2) [OF k]])
  have "sv x \<noteq> ?v" if x: "x \<in> set (common_neigh (sgrid (fst sp)) ?cs)" for x
  proof -
    from c(1) have "c = hd ?cs \<or> c \<in> set (tl ?cs)" by (cases "snd vc") auto
    with x have "x \<in> set (neighbors g0 c)" by (auto simp: common_neigh_def nb)
    from neighbors_subset [OF this] have "in_grid g0 x" "adjacent c x" by simp_all
    from solvesD(3) [OF sol ci this] c(2) show ?thesis by simp
  qed
  then have "keeps sv g0 (foldl (eliminate ?v) sp (common_neigh (sgrid (fst sp)) ?cs))"
    by (intro foldl_keeps [OF _ k] eliminate_keeps)
  with True show ?thesis by (simp add: neighbor_elimination_value_def)
qed

lemma keeps_rebase:
  assumes "keeps sv g0 sp" "keeps sv (sgrid (fst sp)) sp'"
  shows "keeps sv g0 sp'"
  using assms unfolding keeps_def by (blast intro: same_board_trans)

lemma keeps_self: "keeps sv g0 sp \<Longrightarrow> keeps sv (sgrid (fst sp)) sp"
  by (simp add: keeps_def same_board_refl)

lemma keeps_groups: "keeps sv g0 sp \<Longrightarrow> groups (sgrid (fst sp)) = groups g0"
  by (simp add: keeps_def same_boardD(3))

lemma neighbor_elimination_group_keeps:
  assumes k: "keeps sv g0 sp" and gr: "gr \<in> set (groups g0)"
  shows "keeps sv g0 (neighbor_elimination_group sp gr)"
proof -
  let ?g = "sgrid (fst sp)"
  from gr have gr': "gr \<in> set (groups ?g)" by (simp add: keeps_groups [OF k])
  have "keeps sv ?g (foldl neighbor_elimination_value sp (common_cands ?g gr))"
  proof (rule foldl_keeps [OF _ keeps_self [OF k]])
    fix sp' vc
    assume "vc \<in> set (common_cands ?g gr)" "keeps sv ?g sp'"
    then show "keeps sv ?g (neighbor_elimination_value sp' vc)"
      by (intro neighbor_elimination_value_keeps [OF keepsD(1) [OF k] gr'])
         (auto simp: common_cands_def)
  qed
  then show ?thesis
    unfolding neighbor_elimination_group_def by (rule keeps_rebase [OF k])
qed

lemma neighbor_elimination_sound:
  assumes "sound sv (sgrid s)"
  shows "sound sv (sgrid (fst (neighbor_elimination s)))"
proof -
  have "keeps sv (sgrid s) (foldl neighbor_elimination_group (s, False) (groups (sgrid s)))"
    by (rule foldl_keeps [OF _ keeps_start [OF assms]])
       (rule neighbor_elimination_group_keeps)
  then show ?thesis unfolding neighbor_elimination_def by (rule keepsD(1))
qed

text \<open>\<open>_naked_subsets_generalized\<close>.\<close>

lemma combinations_props:
  "xs \<in> set (combinations ys k) \<Longrightarrow> length xs = k \<and> set xs \<subseteq> set ys \<and> (distinct ys \<longrightarrow> distinct xs)"
proof (induction ys k arbitrary: xs rule: combinations.induct)
  case (1 ys)
  then show ?case by simp
next
  case (2 k)
  then show ?case by simp
next
  case (3 y ys k)
  from "3.prems" consider zs where "xs = y # zs" "zs \<in> set (combinations ys k)"
    | "xs \<in> set (combinations ys (Suc k))" by auto
  then show ?case
  proof cases
    case 1
    from "3.IH"(1) [OF 1(2)] 1(1) show ?thesis by auto
  next
    case 2
    from "3.IH"(2) [OF 2] show ?thesis by auto
  qed
qed

lemma naked_subsets_combo_keeps:
  assumes k: "keeps sv g0 sp" and gr: "gr \<in> set (groups g0)"
    and d: "distinct combo" and len: "length combo = sz"
    and sub: "set combo \<subseteq> set (gcells gr)"
    and em: "\<And>c. c \<in> set combo \<Longrightarrow> cvalue (get_cell g0 c) = None"
  shows "keeps sv g0 (naked_subsets_combo gr sz sp combo)"
proof (cases "length (union_candidates (sgrid (fst sp)) combo) = sz")
  case False
  with k show ?thesis by (simp add: naked_subsets_combo_def Let_def)
next
  case True
  let ?g = "sgrid (fst sp)"
  let ?un = "union_candidates ?g combo"
  note s = keepsD(1) [OF k] and b = keepsD(2) [OF k]
  note wf = soundD(1) [OF s] and sol = soundD(2) [OF s]
  from gr have gr': "gr \<in> set (groups ?g)" by (simp add: same_boardD(3) [OF b])
  have un: "set ?un = (\<Union>c \<in> set combo. set (candidates (get_cell ?g c)))"
    by (simp add: union_candidates_def)
  have "sv ` set combo \<subseteq> set ?un"
  proof
    fix w assume "w \<in> sv ` set combo"
    then obtain c where c: "c \<in> set combo" "w = sv c" by auto
    from c(1) sub have cg: "c \<in> set (gcells gr)" by blast
    have "in_grid ?g c" by (rule wf_gridD(4) [OF wf gr' cg])
    moreover from em [OF c(1)] have "cvalue (get_cell ?g c) = None"
      by (simp add: same_boardD(4) [OF b])
    ultimately have "sv c \<in> set (candidates (get_cell ?g c))" by (rule soundD(3) [OF s])
    with c show "w \<in> set ?un" unfolding un by blast
  qed
  moreover have "card (sv ` set combo) = card (set ?un)"
  proof -
    from solvesD(1) [OF sol gr'] sub have "inj_on sv (set combo)" by (rule inj_on_subset)
    then have "card (sv ` set combo) = card (set combo)" by (rule card_image)
    also have "\<dots> = sz" using d len by (simp add: distinct_card)
    also have "\<dots> = card (set ?un)"
      using True distinct_card [of ?un] by (simp add: union_candidates_def)
    finally show ?thesis .
  qed
  ultimately have eq: "sv ` set combo = set ?un"
    by (intro card_subset_eq) simp_all
  have "sv q \<notin> set ?un" if q: "q \<in> set (gcells gr)" "q \<notin> set combo" for q
  proof
    assume "sv q \<in> set ?un"
    with eq have "sv q \<in> sv ` set combo" by simp
    then obtain c where c: "c \<in> set combo" "sv c = sv q" by (auto simp: image_iff)
    from c(1) sub have cg: "c \<in> set (gcells gr)" by blast
    from c(1) q(2) have "q \<noteq> c" by auto
    from solves_peer [OF wf sol gr' q(1) cg this] c(2) show False by simp
  qed
  then have "keeps sv g0 (foldl (remove_candidates ''naked_subsets'' ?un) sp
          (filter (\<lambda>q. q \<notin> set combo \<and> cvalue (get_cell ?g q) = None) (gcells gr)))"
    by (intro foldl_keeps [OF _ k] remove_candidates_keeps) simp_all
  with True show ?thesis by (simp add: naked_subsets_combo_def Let_def)
qed

lemma naked_subsets_group_keeps:
  assumes k: "keeps sv g0 sp" and gr: "gr \<in> set (groups g0)"
  shows "keeps sv g0 (naked_subsets_group max_size sp gr)"
proof -
  let ?g = "sgrid (fst sp)"
  let ?em = "filter (\<lambda>q. cvalue (get_cell ?g q) = None) (gcells gr)"
  note s = keepsD(1) [OF k] and b = keepsD(2) [OF k]
  from gr have gr': "gr \<in> set (groups ?g)" by (simp add: same_boardD(3) [OF b])
  have dem: "distinct ?em" using wf_gridD(2) [OF soundD(1) [OF s] gr'] by simp
  have "keeps sv g0 (foldl (naked_subsets_combo gr sz) sp' (combinations ?em sz))"
    if "keeps sv g0 sp'" for sz sp'
  proof (rule foldl_keeps [OF _ that])
    fix sp'' combo
    assume c: "combo \<in> set (combinations ?em sz)" and k'': "keeps sv g0 sp''"
    from combinations_props [OF c] dem have p: "length combo = sz" "set combo \<subseteq> set ?em"
      "distinct combo" by simp_all
    show "keeps sv g0 (naked_subsets_combo gr sz sp'' combo)"
    proof (rule naked_subsets_combo_keeps [OF k'' gr p(3) p(1)])
      show "set combo \<subseteq> set (gcells gr)" using p(2) by auto
      show "cvalue (get_cell g0 c) = None" if "c \<in> set combo" for c
        using that p(2) by (auto simp: same_boardD(4) [OF b, symmetric])
    qed
  qed
  then have "keeps sv g0 (foldl (\<lambda>sp sz. foldl (naked_subsets_combo gr sz) sp (combinations ?em sz))
        sp [2 ..< min (max_size + 1) (length ?em + 1)])"
    by (intro foldl_keeps [OF _ k])
  then show ?thesis by (simp add: naked_subsets_group_def Let_def)
qed

lemma naked_subsets_generalized_sound:
  assumes "sound sv (sgrid s)"
  shows "sound sv (sgrid (fst (naked_subsets_generalized s)))"
proof -
  have "keeps sv (sgrid s) (foldl (naked_subsets_group 3) (s, False) (groups (sgrid s)))"
    by (rule foldl_keeps [OF _ keeps_start [OF assms]])
       (rule naked_subsets_group_keeps)
  then show ?thesis unfolding naked_subsets_generalized_def by (rule keepsD(1))
qed

text \<open>\<open>_hidden_pairs\<close>. The count of a key in \<open>comb_appear\<close> is at most the number of
  values whose set of holders is the key.\<close>

lemma bump_key_mem:
  "(k, n) \<in> set (bump_key comb m) \<Longrightarrow>
     (k, n) \<in> set m \<or> (set comb = set k \<and> (\<exists>n'. n = Suc n' \<and> (n' = 0 \<and> k = comb \<or> (k, n') \<in> set m)))"
proof (induction m)
  case Nil
  then show ?case by simp
next
  case (Cons e m)
  obtain k' n' where e: "e = (k', n')" by (cases e)
  show ?case
  proof (cases "set comb = set k'")
    case True
    with Cons.prems e have "(k, n) = (k', n' + 1) \<or> (k, n) \<in> set m" by simp
    with True e show ?thesis by auto
  next
    case False
    with Cons.prems e have "(k, n) = (k', n') \<or> (k, n) \<in> set (bump_key comb m)" by simp
    with Cons.IH e show ?thesis by auto
  qed
qed

lemma comb_appear_count:
  "(k, n) \<in> set (comb_appear max_size c2c) \<Longrightarrow>
     k \<in> snd ` set c2c \<and> n \<le> length (filter (\<lambda>(v, comb). set k = set comb) c2c)"
proof (induction c2c arbitrary: k n rule: rev_induct)
  case Nil
  then show ?case by (simp add: comb_appear_def)
next
  case (snoc x xs)
  obtain v comb where x: "x = (v, comb)" by (cases x)
  let ?m = "comb_appear max_size xs"
  have step: "comb_appear max_size (xs @ [x]) = (if length comb \<le> max_size then bump_key comb ?m else ?m)"
    by (simp add: comb_appear_def x)
  show ?case
  proof (cases "(k, n) \<in> set ?m")
    case True
    from snoc.IH [OF True] show ?thesis by auto
  next
    case False
    with snoc.prems step have "(k, n) \<in> set (bump_key comb ?m)" by (auto split: if_splits)
    from bump_key_mem [OF this] False obtain n' where
      n': "set comb = set k" "n = Suc n'" "n' = 0 \<and> k = comb \<or> (k, n') \<in> set ?m" by blast
    from n'(3) show ?thesis
    proof
      assume "n' = 0 \<and> k = comb"
      with n'(2) x show ?thesis by (simp add: image_iff)
    next
      assume "(k, n') \<in> set ?m"
      from snoc.IH [OF this] n'(1,2) x show ?thesis by auto
    qed
  qed
qed

lemma hidden_pairs_key_keeps:
  assumes s0: "sound sv g0" and gr: "gr \<in> set (groups g0)" and k: "keeps sv g0 sp"
    and ki: "ki \<in> set (comb_appear max_size (cands_to_cells g0 gr))"
  shows "keeps sv g0 (hidden_pairs_key gr (cands_to_cells g0 gr) sp ki)"
proof (cases "snd ki < 2 \<or> snd ki \<noteq> length (fst ki)")
  case True
  with k show ?thesis by (auto simp: hidden_pairs_key_def)
next
  case False
  let ?key = "fst ki" and ?c2c = "cands_to_cells g0 gr"
  let ?Q = "\<lambda>v. set ?key = set (holders g0 gr v)"
  let ?V = "{v \<in> {1..gsize gr}. ?Q v}"
  note wf = soundD(1) [OF s0]
  from False have n2: "2 \<le> snd ki" and nl: "snd ki = length ?key" by simp_all
  from ki have "(fst ki, snd ki) \<in> set (comb_appear max_size ?c2c)" by simp
  from comb_appear_count [OF this] have
    mem: "?key \<in> snd ` set ?c2c"
    and cnt: "snd ki \<le> length (filter (\<lambda>(v, comb). set ?key = set comb) ?c2c)" by simp_all
  have vals: "map fst (filter (\<lambda>(v, comb). set ?key = set comb) ?c2c) = filter ?Q [1..gsize gr]"
    by (simp add: cands_to_cells_def filter_map comp_def)
  from mem obtain v0 where v0: "?key = holders g0 gr v0"
    by (auto simp: cands_to_cells_def)
  have dk: "distinct ?key"
    unfolding v0 holders_def using wf_gridD(2) [OF wf gr] by simp
  have "length (filter (\<lambda>(v, comb). set ?key = set comb) ?c2c) = length (filter ?Q [1..gsize gr])"
    unfolding vals [symmetric] by simp
  also have "\<dots> = card (set (filter ?Q [1..gsize gr]))"
    by (rule distinct_card [symmetric]) simp
  also have "set (filter ?Q [1..gsize gr]) = ?V" by auto
  finally have cnt': "length ?key \<le> card ?V" using cnt nl by simp
  have sub: "?V \<subseteq> sv ` set ?key"
  proof
    fix v assume "v \<in> ?V"
    then have q: "set ?key = set (holders g0 gr v)" by simp
    from n2 nl obtain x where "x \<in> set ?key" by (cases "fst ki") auto
    with q have "x \<in> set (holders g0 gr v)" by simp
    from holder_solution [OF s0 gr this] q show "v \<in> sv ` set ?key" by auto
  qed
  have "card (sv ` set ?key) \<le> card (set ?key)" by (rule card_image_le) simp
  also have "\<dots> = length ?key" using dk by (rule distinct_card)
  finally have "card (sv ` set ?key) \<le> card ?V" using cnt' by simp
  moreover have "card ?V \<le> card (sv ` set ?key)" by (rule card_mono [OF _ sub]) simp
  ultimately have "card ?V = card (sv ` set ?key)" by simp
  with sub have eq: "?V = sv ` set ?key" by (intro card_subset_eq) simp_all
  let ?rem = "filter (\<lambda>v. v \<notin> set (map fst (filter (\<lambda>(cand, pair). set ?key = set pair) ?c2c)))
                [1..gsize gr]"
  have "sv c \<notin> set ?rem" if "c \<in> set ?key" for c
  proof -
    from that eq have "sv c \<in> ?V" by blast
    then show ?thesis unfolding vals by simp
  qed
  then have "keeps sv g0 (foldl (remove_candidates ''hidden_pairs'' ?rem) sp ?key)"
    by (intro foldl_keeps [OF _ k] remove_candidates_keeps)
  with False show ?thesis by (simp add: hidden_pairs_key_def Let_def)
qed

lemma hidden_pairs_group_keeps:
  assumes k: "keeps sv g0 sp" and gr: "gr \<in> set (groups g0)"
  shows "keeps sv g0 (hidden_pairs_group max_size sp gr)"
proof -
  let ?g = "sgrid (fst sp)"
  from gr have gr': "gr \<in> set (groups ?g)" by (simp add: keeps_groups [OF k])
  have "keeps sv ?g (foldl (hidden_pairs_key gr (cands_to_cells ?g gr)) sp
          (comb_appear max_size (cands_to_cells ?g gr)))"
    by (rule foldl_keeps [OF _ keeps_self [OF k]])
       (rule hidden_pairs_key_keeps [OF keepsD(1) [OF k] gr'])
  then show ?thesis
    unfolding hidden_pairs_group_def Let_def by (rule keeps_rebase [OF k])
qed

lemma hidden_pairs_sound:
  assumes "sound sv (sgrid s)"
  shows "sound sv (sgrid (fst (hidden_pairs s)))"
proof -
  have "keeps sv (sgrid s) (foldl (hidden_pairs_group 3) (s, False) (groups (sgrid s)))"
    by (rule foldl_keeps [OF _ keeps_start [OF assms]])
       (rule hidden_pairs_group_keeps)
  then show ?thesis unfolding hidden_pairs_def by (rule keepsD(1))
qed

text \<open>Hence \<open>solve\<close> raises nothing on a grid that has a solution.\<close>

lemma level2_sound: "sound sv (sgrid (fst sc)) \<Longrightarrow> sound sv (sgrid (fst (level2 m sc)))"
  by (simp add: level2_def Let_def neighbor_elimination_sound)

lemma level3_sound: "sound sv (sgrid (fst sc)) \<Longrightarrow> sound sv (sgrid (fst (level3 m sc)))"
  by (simp add: level3_def Let_def naked_subsets_generalized_sound hidden_pairs_sound)

lemma solve_pass_sound:
  assumes "sound sv (sgrid s)"
  shows "\<exists>s' c b. solve_pass m s = Inr (s', c, b) \<and> sound sv (sgrid s')"
proof -
  from level1_sound [OF assms, of False] obtain s1 c1 where
    l1: "level1 s False = Inr (s1, c1)" and s1: "sound sv (sgrid s1)" by blast
  from s1 have s2: "sound sv (sgrid (fst (level2 m (s1, c1))))"
    by (intro level2_sound) simp
  then have s3: "sound sv (sgrid (fst (level3 m (level2 m (s1, c1)))))"
    by (rule level3_sound)
  show ?thesis
    unfolding solve_pass_def l1 using s1 s2 s3 by (auto simp: Let_def)
qed

lemma solve_loop_sound:
  "sound sv (sgrid s) \<Longrightarrow> \<exists>s'. solve_loop m s = Inr s' \<and> sound sv (sgrid s')"
proof (induction m s rule: solve_loop.induct)
  case (1 m s)
  from solve_pass_sound [OF "1.prems", of m] obtain s1 c b where
    sp: "solve_pass m s = Inr (s1, c, b)" and s1: "sound sv (sgrid s1)" by blast
  show ?case
  proof (cases "\<not> b \<and> c")
    case True
    from "1.IH" [OF sp refl refl _ _ s1] True obtain s' where
      "solve_loop m s1 = Inr s'" "sound sv (sgrid s')" by blast
    with sp True show ?thesis by (subst solve_loop.simps) simp
  next
    case False
    with sp s1 show ?thesis by (subst solve_loop.simps) auto
  qed
qed

lemma solve_sound:
  assumes "wf_grid g" "solves g sv"
  shows "\<exists>r. solve g m = Inr r \<and> sound sv (result_grid r)"
proof -
  let ?s = "\<lparr> sgrid = init_candidates (clone_grid g), techniques_used = {} \<rparr>"
  from init_candidates_sound [OF assms] have "sound sv (sgrid ?s)" by (simp add: clone_grid_id)
  from solve_loop_sound [OF this, of m] obtain s' where
    "solve_loop m ?s = Inr s'" "sound sv (sgrid s')" by blast
  then show ?thesis by (simp add: solve_def)
qed

lemma completes_solves:
  assumes wf: "wf_grid g" and c: "completes g g'" and v: "valid_solution g'"
  shows "solves g (\<lambda>p. the (cvalue (get_cell g' p)))"
proof -
  define sv where "sv = (\<lambda>p. the (cvalue (get_cell g' p)))"
  note cf = completes_fields [OF c]
  have some: "cvalue (get_cell g' p) = Some (sv p)" if "in_grid g p" for p
  proof -
    from cf(7) [OF that] obtain w where "cvalue (get_cell g' p) = Some w" by blast
    then show ?thesis by (simp add: sv_def)
  qed
  have grp: "inj_on sv (set (gcells gr)) \<and> sv ` set (gcells gr) = {1..gsize gr}"
    if gr: "gr \<in> set (groups g)" for gr
  proof -
    from gr have gr': "gr \<in> set (groups g')" by (simp add: cf(3))
    have val: "cvalue (get_cell g' q) = Some (sv q)" if "q \<in> set (gcells gr)" for q
      by (rule some [OF wf_gridD(4) [OF wf gr that]])
    from valid_solutionD(1) [OF v gr'] have I: "inj_on (\<lambda>q. cvalue (get_cell g' q)) (set (gcells gr))"
      by (simp add: distinct_map)
    have inj: "inj_on sv (set (gcells gr))"
    proof (rule inj_onI)
      fix x y
      assume x: "x \<in> set (gcells gr)" and y: "y \<in> set (gcells gr)" and e: "sv x = sv y"
      from e val [OF x] val [OF y] have "cvalue (get_cell g' x) = cvalue (get_cell g' y)" by simp
      from inj_onD [OF I this x y] show "x = y" .
    qed
    have "Some ` sv ` set (gcells gr) = (\<lambda>q. cvalue (get_cell g' q)) ` set (gcells gr)"
      unfolding image_image by (rule image_cong) (simp_all add: val)
    also have "\<dots> = Some ` {1..gsize gr}"
      using valid_solutionD(2) [OF v gr'] by simp
    finally have "Some ` sv ` set (gcells gr) = Some ` {1..gsize gr}" .
    then have "sv ` set (gcells gr) = {1..gsize gr}"
      by (rule inj_image_eq_iff [THEN iffD1, rotated]) simp
    with inj show ?thesis by simp
  qed
  have adj: "sv p \<noteq> sv q" if "in_grid g p" "in_grid g q" "adjacent p q" for p q
  proof -
    from that have "in_grid g' p" "in_grid g' q" by (simp_all add: cf(4))
    from valid_solutionD(3) [OF v this that(3)] some [OF that(1)] some [OF that(2)]
    show ?thesis by auto
  qed
  have agree: "sv p = w" if "in_grid g p" "cvalue (get_cell g p) = Some w" for p w
    using cf(8) [OF that] by (simp add: sv_def)
  have "solves g sv"
    unfolding solves_def
  proof (intro conjI ballI allI impI)
    fix gr assume "gr \<in> set (groups g)"
    from grp [OF this] show "inj_on sv (set (gcells gr))" "sv ` set (gcells gr) = {1..gsize gr}"
      by simp_all
  next
    fix p q assume "in_grid g p \<and> in_grid g q \<and> adjacent p q"
    then show "sv p \<noteq> sv q" using adj by blast
  next
    fix p w assume "in_grid g p \<and> cvalue (get_cell g p) = Some w"
    then show "sv p = w" using agree by blast
  qed
  then show ?thesis by (simp add: sv_def)
qed

text \<open>
  Claim C5, amended. No handler for \<open>Contradiction\<close> exists in the solver: what
  \<open>_place_value\<close> raises leaves \<open>solve\<close>. It is never raised on a grid that can be
  completed: for every well-formed grid whose assigned values extend to a complete
  assignment satisfying every constraint, and every \<open>max_difficulty\<close>, \<open>solve\<close> returns a
  result.
\<close>

theorem solve_returns_on_solvable_grid:
  assumes "wf_grid g" "completes g g'" "valid_solution g'"
  shows "\<exists>result. solve g max_difficulty = Inr result"
proof -
  from completes_solves [OF assms] have "solves g (\<lambda>p. the (cvalue (get_cell g' p)))" .
  from solve_sound [OF assms(1) this, of max_difficulty] show ?thesis by blast
qed

theorem solve_returns_on_solvable_grid_witness:
  "wf_grid (set_value (build_cells 1 2 [[0, 0]]) (0, 0) (Some 1))
   \<and> (\<exists>g'. completes (set_value (build_cells 1 2 [[0, 0]]) (0, 0) (Some 1)) g' \<and> valid_solution g')
   \<and> (\<exists>result. solve (set_value (build_cells 1 2 [[0, 0]]) (0, 0) (Some 1)) 1 = Inr result)"
proof -
  let ?g = "set_value (build_cells 1 2 [[0, 0]]) (0, 0) (Some 1)"
  have wf: "wf_grid ?g" by code_simp
  have "is_valid ?g" "values_in_range ?g" by code_simp+
  with wf have "consistent ?g" by (intro consistentI)
  with wf have "count_solutions ?g 2 = min 2 (card (solutions ?g))"
    using count_solutions_solutions by blast
  moreover have "count_solutions ?g 2 = 1" by code_simp
  ultimately have "card (solutions ?g) \<noteq> 0" by (auto simp: min_def split: if_splits)
  then have "solutions ?g \<noteq> {}" by auto
  then obtain g' where g': "completes ?g g'" "valid_solution g'"
    by (auto simp: solutions_def)
  from solve_returns_on_solvable_grid [OF wf g', of 1] wf g' show ?thesis by blast
qed

text \<open>
  Claim C5 as stated fails: in the grid built from the layout \<open>[[0, 1]]\<close>, two adjacent
  cells that each form a group of size 1, the first cell is a naked single; placing
  its \<open>1\<close> leaves the second cell, its neighbour, without a candidate, and \<open>solve\<close>
  ends with the \<open>Contradiction\<close> that \<open>_place_value\<close> raises.
\<close>

theorem solve_propagates_contradiction_counterexample:
  "wf_grid (build_cells 1 2 [[0, 1]]) \<and> solve (build_cells 1 2 [[0, 1]]) 1 = Inl Contradiction"
proof -
  have "case solve (build_cells 1 2 [[0, 1]]) 1 of Inl Contradiction \<Rightarrow> True | _ \<Rightarrow> False"
    by code_simp
  then have "solve (build_cells 1 2 [[0, 1]]) 1 = Inl Contradiction"
    by (cases "solve (build_cells 1 2 [[0, 1]]) 1") (auto split: error.splits)
  moreover have "wf_grid (build_cells 1 2 [[0, 1]])"
    by code_simp
  ultimately show ?thesis by simp
qed

section \<open>Clue removal\<close>

text \<open>The words of the claim. \<open>passes_checks\<close>: the propagation solver, limited to the
  target difficulty, fully solves the board, and \<open>has_unique_solution\<close> holds of it.
  \<open>removed g' cs\<close> are the cells of \<open>cs\<close> that are blank in the final grid \<open>g'\<close>, and
  \<open>blank_cells g cs\<close> is \<open>g\<close> with the cells \<open>cs\<close> blanked. \<open>shuffled_cells\<close> is the list
  \<open>filled_cells\<close> of \<open>_remove_clues\<close> after the shuffle.\<close>

definition passes_checks :: "int \<Rightarrow> grid \<Rightarrow> bool" where
  "passes_checks target_difficulty g \<longleftrightarrow>
     (case solve (clone_grid g) target_difficulty of Inl e \<Rightarrow> False | Inr result \<Rightarrow> solved result)
     \<and> has_unique_solution g"

definition blank_cells :: "grid \<Rightarrow> pos list \<Rightarrow> grid" where
  "blank_cells g cs = foldl (\<lambda>h c. set_value h c None) g cs"

definition removed :: "grid \<Rightarrow> pos list \<Rightarrow> pos list" where
  "removed g' cs = filter (\<lambda>c. cvalue (get_cell g' c) = None) cs"

definition shuffled_cells :: "grid \<Rightarrow> rng \<Rightarrow> pos list" where
  "shuffled_cells g rs =
     fst (shuffle rs (filter (\<lambda>p. cvalue (get_cell g p) \<noteq> None) (all_positions (rows g) (cols g))))"

text \<open>\<open>random.shuffle\<close> permutes.\<close>

lemma shuffle_from_perm:
  "i < length xs \<Longrightarrow>
     set (fst (shuffle_from i rs xs)) = set xs
     \<and> distinct (fst (shuffle_from i rs xs)) = distinct xs
     \<and> length (fst (shuffle_from i rs xs)) = length xs"
proof (induction i arbitrary: rs xs)
  case 0
  then show ?case by simp
next
  case (Suc i)
  obtain r rs' where d: "draw rs = (r, rs')" by (cases "draw rs")
  let ?j = "r mod (Suc i + 1)"
  let ?ys = "xs[Suc i := xs ! ?j, ?j := xs ! Suc i]"
  have j: "?j < length xs" using Suc.prems by (simp add: less_le_trans [OF mod_less_divisor])
  have l: "length ?ys = length xs" by simp
  have s: "set ?ys = set xs" using Suc.prems j by (rule set_swap)
  have di: "distinct ?ys = distinct xs" using Suc.prems j by (rule distinct_swap)
  from Suc.prems have "i < length ?ys" by simp
  from Suc.IH [OF this, of rs'] show ?case
    unfolding shuffle_from.simps d Let_def prod.case s di l .
qed

lemma shuffle_perm:
  "set (fst (shuffle rs xs)) = set xs \<and> distinct (fst (shuffle rs xs)) = distinct xs
   \<and> length (fst (shuffle rs xs)) = length xs"
proof (cases xs)
  case Nil
  then show ?thesis by (simp add: shuffle_def)
next
  case (Cons a list)
  then have "length xs - 1 < length xs" by simp
  from shuffle_from_perm [OF this] show ?thesis unfolding shuffle_def .
qed

lemma shuffled_cells_props:
  "set (shuffled_cells g rs) = {p. in_grid g p \<and> cvalue (get_cell g p) \<noteq> None}"
  "distinct (shuffled_cells g rs)"
  unfolding shuffled_cells_def
  by (auto simp: shuffle_perm in_grid_positions distinct_all_positions)

lemma remove_clues_unfold:
  "fst (remove_clues g td p rs) =
     (case removal_limit (length (shuffled_cells g rs)) p of
        Inl e \<Rightarrow> Inl e
      | Inr max_removals \<Rightarrow> remove_loop td max_removals g 0 (shuffled_cells g rs))"
  unfolding remove_clues_def shuffled_cells_def
  by (auto split: prod.splits sum.splits)

text \<open>What the loop returns, cell by cell.\<close>

lemma removed_Nil: "(\<And>c. c \<in> set cs \<Longrightarrow> cvalue (get_cell g c) \<noteq> None) \<Longrightarrow> removed g cs = []"
  by (simp add: removed_def)

lemma remove_loop_trace:
  assumes "remove_loop td m g r cs = Inr g'" "distinct cs"
    "\<And>c. c \<in> set cs \<Longrightarrow> cvalue (get_cell g c) \<noteq> None"
  shows "g' = blank_cells g (removed g' cs)
     \<and> (\<forall>i < length cs.
          cvalue (get_cell g' (cs ! i)) = None \<longleftrightarrow>
            r + int (length (removed g' (take i cs))) < m
            \<and> passes_checks td (set_value (blank_cells g (removed g' (take i cs))) (cs ! i) None))"
  using assms
proof (induction cs arbitrary: g r)
  case Nil
  then show ?case by (simp add: removed_def blank_cells_def)
next
  case (Cons c cs)
  show ?case
  proof (cases "r \<ge> m")
    case True
    with Cons.prems(1) have g': "g' = g" by simp
    have e: "removed g xs = []" if "set xs \<subseteq> set (c # cs)" for xs
      using that Cons.prems(3) by (intro removed_Nil) blast
    have "cvalue (get_cell g ((c # cs) ! i)) \<noteq> None" if "i < length (c # cs)" for i
      using Cons.prems(3) [OF nth_mem [OF that]] .
    moreover have "removed g (take i (c # cs)) = []" for i
      by (rule e) (rule set_take_subset)
    ultimately show ?thesis
      unfolding g' using True e [of "c # cs"] by (simp add: blank_cells_def)
  next
    case False
    let ?g1 = "set_value g c None"
    from False Cons.prems(1) obtain result where res: "solve (clone_grid ?g1) td = Inr result"
      by (auto simp: Let_def split: sum.splits)
    from Cons.prems(2) have dc: "distinct cs" and cn: "c \<notin> set cs" by simp_all
    show ?thesis
    proof (cases "solved result \<and> has_unique_solution ?g1")
      case True
      with False res Cons.prems(1) have rec: "remove_loop td m ?g1 (r + 1) cs = Inr g'"
        by (simp add: Let_def)
      have filled: "cvalue (get_cell ?g1 x) \<noteq> None" if "x \<in> set cs" for x
        using Cons.prems(3) [of x] that cn by (auto simp: get_cell_set_value)
      note IH = Cons.IH [OF rec dc filled]
      from remove_loop_result [OF rec, THEN conjunct2, THEN conjunct1, THEN spec, of c]
      have cb: "cvalue (get_cell g' c) = None" by (auto simp: get_cell_set_value)
      have rm: "removed g' (c # xs) = c # removed g' xs" for xs
        using cb by (simp add: removed_def)
      have bl: "blank_cells g (c # xs) = blank_cells ?g1 xs" for xs
        by (simp add: blank_cells_def)
      have pc: "passes_checks td ?g1"
        using True res by (simp add: passes_checks_def)
      have 1: "g' = blank_cells g (removed g' (c # cs))"
        unfolding rm bl using IH by blast
      have 2: "cvalue (get_cell g' ((c # cs) ! i)) = None \<longleftrightarrow>
            r + int (length (removed g' (take i (c # cs)))) < m
            \<and> passes_checks td (set_value (blank_cells g (removed g' (take i (c # cs)))) ((c # cs) ! i) None)"
        if i: "i < length (c # cs)" for i
      proof (cases i)
        case 0
        with cb False pc show ?thesis by (simp add: removed_def blank_cells_def)
      next
        case (Suc j)
        with i have "j < length cs" by simp
        with IH have "cvalue (get_cell g' (cs ! j)) = None \<longleftrightarrow>
            r + 1 + int (length (removed g' (take j cs))) < m
            \<and> passes_checks td (set_value (blank_cells ?g1 (removed g' (take j cs))) (cs ! j) None)"
          by blast
        then show ?thesis unfolding Suc by (simp add: rm bl add.assoc)
      qed
      from 1 2 show ?thesis by blast
    next
      case F: False
      with False res Cons.prems(1) have rec: "remove_loop td m g r cs = Inr g'"
        by (simp add: Let_def set_value_restore)
      have filled: "cvalue (get_cell g x) \<noteq> None" if "x \<in> set cs" for x
        using Cons.prems(3) [of x] that by simp
      note IH = Cons.IH [OF rec dc filled]
      from remove_loop_result [OF rec, THEN conjunct2, THEN conjunct1, THEN spec, of c] cn have
        "cvalue (get_cell g' c) = cvalue (get_cell g c)" by auto
      with Cons.prems(3) [of c] have cb: "cvalue (get_cell g' c) \<noteq> None" by simp
      have rm: "removed g' (c # xs) = removed g' xs" for xs
        using cb by (simp add: removed_def)
      have pc: "\<not> passes_checks td ?g1"
        using F res by (simp add: passes_checks_def)
      have 1: "g' = blank_cells g (removed g' (c # cs))"
        unfolding rm using IH by blast
      have 2: "cvalue (get_cell g' ((c # cs) ! i)) = None \<longleftrightarrow>
            r + int (length (removed g' (take i (c # cs)))) < m
            \<and> passes_checks td (set_value (blank_cells g (removed g' (take i (c # cs)))) ((c # cs) ! i) None)"
        if i: "i < length (c # cs)" for i
      proof (cases i)
        case 0
        with cb pc show ?thesis by (simp add: removed_def blank_cells_def)
      next
        case (Suc j)
        with i have "j < length cs" by simp
        with IH have "cvalue (get_cell g' (cs ! j)) = None \<longleftrightarrow>
            r + int (length (removed g' (take j cs))) < m
            \<and> passes_checks td (set_value (blank_cells g (removed g' (take j cs))) (cs ! j) None)"
          by blast
        then show ?thesis unfolding Suc by (simp add: rm)
      qed
      from 1 2 show ?thesis by blast
    qed
  qed
qed

text \<open>Blanking cells of a grid that has a solution leaves a grid that has it, so the
  solver raises nothing in the loop.\<close>

lemma solves_blank:
  assumes "solves g sv"
  shows "solves (set_value g c None) sv"
  using assms unfolding solves_def
  by (auto simp: get_cell_set_value split: if_splits)

lemma solves_restore:
  assumes "solves g sv"
  shows "solves (set_value (set_value g c None) c (cvalue (get_cell g c))) sv"
  by (simp add: set_value_restore assms)

lemma remove_loop_returns:
  assumes "wf_grid g" "solves g sv"
  shows "\<exists>g'. remove_loop td m g r cs = Inr g' \<and> wf_grid g' \<and> solves g' sv
            \<and> rows g' = rows g \<and> cols g' = cols g"
  using assms
proof (induction cs arbitrary: g r)
  case Nil
  then show ?case by simp
next
  case (Cons c cs)
  let ?g1 = "set_value g c None"
  have wf1: "wf_grid ?g1" using Cons.prems(1) by simp
  have s1: "solves ?g1 sv" by (rule solves_blank [OF Cons.prems(2)])
  from solve_sound [OF wf1 s1, of td] obtain result where
    res: "solve (clone_grid ?g1) td = Inr result" by (auto simp: clone_grid_id)
  from Cons.IH [OF wf1 s1, of "r + 1"] obtain ga where
    a: "remove_loop td m ?g1 (r + 1) cs = Inr ga" "wf_grid ga" "solves ga sv"
       "rows ga = rows g" "cols ga = cols g" by auto
  from Cons.IH [OF Cons.prems, of r] obtain gb where
    b: "remove_loop td m g r cs = Inr gb" "wf_grid gb" "solves gb sv"
       "rows gb = rows g" "cols gb = cols g" by auto
  show ?case
  proof (cases "r \<ge> m")
    case True
    with Cons.prems show ?thesis by simp
  next
    case False
    show ?thesis
    proof (cases "solved result \<and> has_unique_solution ?g1")
      case True
      with False res a show ?thesis by (auto simp: Let_def)
    next
      case F: False
      with False res b show ?thesis by (auto simp: Let_def set_value_restore)
    qed
  qed
qed

lemma solution_grid_solves:
  assumes "wf_grid g" "is_complete g" "is_valid g" "values_in_range g"
  shows "solves g (\<lambda>p. the (cvalue (get_cell g p)))"
proof -
  from assms(1,3,4) have c: "consistent g" by (rule consistentI)
  from assms(2) have "completes g g" unfolding completes_def is_complete_iff by blast
  moreover have "valid_solution g" by (rule consistent_valid_solution [OF assms(1) c assms(2)])
  ultimately show ?thesis by (rule completes_solves [OF assms(1)])
qed

text \<open>
  Claim C4, amended. \<open>_remove_clues\<close>, applied to a filled solution grid, tries the
  filled cells in the order of the shuffle and returns a grid \<open>g'\<close> that is the
  solution with some of these cells blanked and every other cell as it was. A cell is
  blank in \<open>g'\<close> if and only if, when its turn came, fewer than \<open>max_removals\<close> removals
  had been kept and the board of that moment with the cell blanked passed both checks:
  the propagation solver at the target difficulty solves it, and \<open>has_unique_solution\<close>
  holds of it. The limit is \<open>max_removals = int(total_cells * removal_percentage)\<close>, the
  floating-point product truncated towards zero.
\<close>

theorem remove_clues_keeps_checked_removals:
  assumes "wf_grid g" "is_complete g" "is_valid g" "values_in_range g"
    and "removal_limit (length (shuffled_cells g rs)) removal_percentage = Inr max_removals"
  shows "\<exists>g'. fst (remove_clues g target_difficulty removal_percentage rs) = Inr g'
     \<and> g' = blank_cells g (removed g' (shuffled_cells g rs))
     \<and> (\<forall>i < length (shuffled_cells g rs).
          cvalue (get_cell g' (shuffled_cells g rs ! i)) = None \<longleftrightarrow>
            int (length (removed g' (take i (shuffled_cells g rs)))) < max_removals
            \<and> passes_checks target_difficulty
                (set_value (blank_cells g (removed g' (take i (shuffled_cells g rs))))
                   (shuffled_cells g rs ! i) None))"
proof -
  let ?cs = "shuffled_cells g rs"
  from solution_grid_solves [OF assms(1-4)] have "solves g (\<lambda>p. the (cvalue (get_cell g p)))" .
  from remove_loop_returns [OF assms(1) this, of target_difficulty max_removals 0 ?cs]
  obtain g' where g': "remove_loop target_difficulty max_removals g 0 ?cs = Inr g'" by blast
  have "cvalue (get_cell g c) \<noteq> None" if "c \<in> set ?cs" for c
    using that by (simp add: shuffled_cells_props(1))
  from remove_loop_trace [OF g' shuffled_cells_props(2) this]
  have "g' = blank_cells g (removed g' ?cs)
     \<and> (\<forall>i < length ?cs.
          cvalue (get_cell g' (?cs ! i)) = None \<longleftrightarrow>
            int (length (removed g' (take i ?cs))) < max_removals
            \<and> passes_checks target_difficulty
                (set_value (blank_cells g (removed g' (take i ?cs))) (?cs ! i) None))"
    by simp
  moreover have "fst (remove_clues g target_difficulty removal_percentage rs) = Inr g'"
    unfolding remove_clues_unfold assms(5) using g' by simp
  ultimately show ?thesis by blast
qed

theorem remove_clues_keeps_checked_removals_witness:
  "wf_grid (set_value (set_value (set_value (build_cells 1 3 [[0, 0, 1]]) (0, 0) (Some 1)) (0, 1) (Some 2)) (0, 2) (Some 1))
   \<and> is_complete (set_value (set_value (set_value (build_cells 1 3 [[0, 0, 1]]) (0, 0) (Some 1)) (0, 1) (Some 2)) (0, 2) (Some 1))
   \<and> is_valid (set_value (set_value (set_value (build_cells 1 3 [[0, 0, 1]]) (0, 0) (Some 1)) (0, 1) (Some 2)) (0, 2) (Some 1))
   \<and> values_in_range (set_value (set_value (set_value (build_cells 1 3 [[0, 0, 1]]) (0, 0) (Some 1)) (0, 1) (Some 2)) (0, 2) (Some 1))
   \<and> removal_limit (length (shuffled_cells
          (set_value (set_value (set_value (build_cells 1 3 [[0, 0, 1]]) (0, 0) (Some 1)) (0, 1) (Some 2)) (0, 2) (Some 1)) []))
        (Finite 1 (- 1)) = Inr 1
   \<and> (\<exists>g'. fst (remove_clues
          (set_value (set_value (set_value (build_cells 1 3 [[0, 0, 1]]) (0, 0) (Some 1)) (0, 1) (Some 2)) (0, 2) (Some 1))
          1 (Finite 1 (- 1)) []) = Inr g'
        \<and> (cvalue (get_cell g' (0, 1)) = None \<longleftrightarrow>
             passes_checks 1 (set_value
               (set_value (set_value (set_value (build_cells 1 3 [[0, 0, 1]]) (0, 0) (Some 1)) (0, 1) (Some 2)) (0, 2) (Some 1))
               (0, 1) None)))"
proof -
  let ?g = "set_value (set_value (set_value (build_cells 1 3 [[0, 0, 1]]) (0, 0) (Some 1)) (0, 1) (Some 2)) (0, 2) (Some 1)"
  have h1: "wf_grid ?g" by code_simp
  have h2: "is_complete ?g" by code_simp
  have h3: "is_valid ?g" by code_simp
  have h4: "values_in_range ?g" by code_simp
  have cs: "shuffled_cells ?g [] = [(0, 1), (0, 2), (0, 0)]" by code_simp
  have h5: "removal_limit (length (shuffled_cells ?g [])) (Finite 1 (- 1)) = Inr 1"
    unfolding cs by code_simp
  from remove_clues_keeps_checked_removals [OF h1 h2 h3 h4 h5, of 1] obtain g' where
    g': "fst (remove_clues ?g 1 (Finite 1 (- 1)) []) = Inr g'"
    and tr: "\<forall>i < length (shuffled_cells ?g []).
          cvalue (get_cell g' (shuffled_cells ?g [] ! i)) = None \<longleftrightarrow>
            int (length (removed g' (take i (shuffled_cells ?g [])))) < 1
            \<and> passes_checks 1
                (set_value (blank_cells ?g (removed g' (take i (shuffled_cells ?g []))))
                   (shuffled_cells ?g [] ! i) None)"
    by blast
  from tr have k: "cvalue (get_cell g' (0, 1)) = None \<longleftrightarrow> passes_checks 1 (set_value ?g (0, 1) None)"
    unfolding cs by (auto simp: removed_def blank_cells_def dest: spec [of _ 0])
  from g' k have "\<exists>g'. fst (remove_clues ?g 1 (Finite 1 (- 1)) []) = Inr g'
        \<and> (cvalue (get_cell g' (0, 1)) = None \<longleftrightarrow> passes_checks 1 (set_value ?g (0, 1) None))"
    by (intro exI [of _ g'] conjI)
  with h1 h2 h3 h4 h5 show ?thesis by (intro conjI)
qed

text \<open>
  Claim C4 as stated fails in its last clause. On the solution \<open>1 2 1\<close> of the row of
  three cells with the groups \<open>[[0, 0, 1]]\<close>, with \<open>removal_percentage = 0.5\<close> (that is
  \<open>1 \<times> 2\<^sup>-\<^sup>1\<close>) and the shuffle of the empty supply, the limit is \<open>int(3 * 0.5) = 1\<close>:
  one removal is kept and the loop stops, with fewer removals than
  \<open>removal_percentage \<times> total_cells = 1.5\<close> and although the next cell, \<open>(0, 2)\<close>, would pass
  both checks. In the same way \<open>int(9 * 0.5) = 4\<close>, and \<open>int(100 * 0.29) = 28\<close>, where \<open>0.29\<close>
  is the double \<open>5224175567749775 \<times> 2\<^sup>-\<^sup>5\<^sup>4\<close>.
\<close>

theorem remove_clues_limit_counterexample:
  "\<exists>g'. fst (remove_clues
          (set_value (set_value (set_value (build_cells 1 3 [[0, 0, 1]]) (0, 0) (Some 1)) (0, 1) (Some 2)) (0, 2) (Some 1))
          1 (Finite 1 (- 1)) []) = Inr g'
     \<and> shuffled_cells
          (set_value (set_value (set_value (build_cells 1 3 [[0, 0, 1]]) (0, 0) (Some 1)) (0, 1) (Some 2)) (0, 2) (Some 1))
          [] = [(0, 1), (0, 2), (0, 0)]
     \<and> removed g' [(0, 1), (0, 2), (0, 0)] = [(0, 1)]
     \<and> 2 * length (removed g' [(0, 1), (0, 2), (0, 0)]) < 1 * length [(0, 1), (0, 2), (0, 0) :: pos]
     \<and> passes_checks 1 (set_value g' (0, 2) None)
     \<and> removal_limit 3 (Finite 1 (- 1)) = Inr 1
     \<and> removal_limit 9 (Finite 1 (- 1)) = Inr 4
     \<and> removal_limit 100 (Finite 5224175567749775 (- 54)) = Inr 28"
proof -
  let ?g = "set_value (set_value (set_value (build_cells 1 3 [[0, 0, 1]]) (0, 0) (Some 1)) (0, 1) (Some 2)) (0, 2) (Some 1)"
  have "case fst (remove_clues ?g 1 (Finite 1 (- 1)) []) of
          Inr g' \<Rightarrow> removed g' [(0, 1), (0, 2), (0, 0)] = [(0, 1)]
                    \<and> passes_checks 1 (set_value g' (0, 2) None)
        | Inl e \<Rightarrow> False"
    by code_simp
  then obtain g' where "fst (remove_clues ?g 1 (Finite 1 (- 1)) []) = Inr g'"
    "removed g' [(0, 1), (0, 2), (0, 0)] = [(0, 1)]" "passes_checks 1 (set_value g' (0, 2) None)"
    by (auto split: sum.splits)
  moreover have "shuffled_cells ?g [] = [(0, 1), (0, 2), (0, 0)]" by code_simp
  moreover have "removal_limit 3 (Finite 1 (- 1)) = Inr 1" by code_simp
  moreover have "removal_limit 9 (Finite 1 (- 1)) = Inr 4" by code_simp
  moreover have "removal_limit 100 (Finite 5224175567749775 (- 54)) = Inr 28" by code_simp
  ultimately show ?thesis by simp
qed

section \<open>\<open>generate\<close> raises nothing but what \<open>int\<close> raises\<close>

































end
